theory Spec2Isabelle
  imports Complex_Main
begin

section \<open>Data model\<close>

text \<open>
  The exceptions the two functions of \<^verbatim>\<open>dijkstra.py\<close> can raise: the explicit
  \<^verbatim>\<open>ValueError\<close> of \<^verbatim>\<open>dijkstra_steps\<close> (also what \<^verbatim>\<open>min\<close> raises on an empty
  collection) and the \<^verbatim>\<open>KeyError\<close> of a dictionary lookup with a missing key.
\<close>

datatype py_error = ValueError | KeyError

text \<open>
  A distance value is a Python float, that is an IEEE 754 double: a finite number,
  \<^verbatim>\<open>math.inf\<close> or \<^verbatim>\<open>-math.inf\<close>. Edge weights are finite numbers, as the Graph of the
  specification has them, so that no addition yields a NaN. The two zeros of the format
  are one value: they compare equal.
\<close>

datatype cost = MInfinity | Finite real | Infinity

instantiation cost :: linorder
begin

fun less_eq_cost :: "cost \<Rightarrow> cost \<Rightarrow> bool" where
  "less_eq_cost MInfinity c = True"
| "less_eq_cost (Finite a) MInfinity = False"
| "less_eq_cost (Finite a) (Finite b) = (a \<le> b)"
| "less_eq_cost (Finite a) Infinity = True"
| "less_eq_cost Infinity MInfinity = False"
| "less_eq_cost Infinity (Finite b) = False"
| "less_eq_cost Infinity Infinity = True"

definition less_cost :: "cost \<Rightarrow> cost \<Rightarrow> bool" where
  "less_cost a b = (a \<le> b \<and> \<not> b \<le> a)"

instance
proof
  fix x y z :: cost
  show "(x < y) = (x \<le> y \<and> \<not> y \<le> x)" by (simp add: less_cost_def)
  show "x \<le> x" by (cases x) simp_all
  show "x \<le> y \<Longrightarrow> y \<le> z \<Longrightarrow> x \<le> z" by (cases x; cases y; cases z) simp_all
  show "x \<le> y \<Longrightarrow> y \<le> x \<Longrightarrow> x = y" by (cases x; cases y) simp_all
  show "x \<le> y \<or> y \<le> x" by (cases x; cases y) auto
qed

end

text \<open>
  The rounding of a real number to a double, to nearest with ties to even. \<open>binade x\<close> is
  the exponent \<open>e\<close> of the binade \<open>2\<^sup>e \<le> |x| < 2\<^sup>e\<^sup>+\<^sup>1\<close> of \<open>x\<close>, no less than the least normal
  exponent -1022 (below it lie the subnormal numbers and zero) and cut off at 1024, where
  every number overflows. The doubles of a binade are the multiples of \<open>ulp x = 2\<^sup>e\<^sup>-\<^sup>5\<^sup>2\<close>.
  \<open>nearest x\<close> is the multiple nearest to \<open>|x|\<close>, the even one of two that are equally near,
  and \<open>fl x\<close> is the double or infinity that \<open>x\<close> rounds to.
\<close>

definition binade :: "real \<Rightarrow> int" where
  "binade x = Max (insert (- 1022) {e \<in> {- 1022..1024}. 2 powi e \<le> \<bar>x\<bar>})"

definition ulp :: "real \<Rightarrow> real" where
  "ulp x = 2 powi (binade x - 52)"

definition round_half_even :: "real \<Rightarrow> int" where
  "round_half_even q =
     (if q - of_int \<lfloor>q\<rfloor> < 1 / 2 then \<lfloor>q\<rfloor>
      else if 1 / 2 < q - of_int \<lfloor>q\<rfloor> then \<lfloor>q\<rfloor> + 1
      else if even \<lfloor>q\<rfloor> then \<lfloor>q\<rfloor> else \<lfloor>q\<rfloor> + 1)"

definition nearest :: "real \<Rightarrow> real" where
  "nearest x = of_int (round_half_even (\<bar>x\<bar> / ulp x)) * ulp x"

definition fl :: "real \<Rightarrow> cost" where
  "fl x =
     (if 2 ^ 1024 \<le> nearest x then (if 0 < x then Infinity else MInfinity)
      else Finite (sgn x * nearest x))"

text \<open>
  \<^verbatim>\<open>d + w\<close> for a distance \<open>d\<close> and a finite weight \<open>w\<close>: the exact sum, rounded;
  \<^verbatim>\<open>math.isinf(d)\<close>; and whether a distance is a double, which is to say that rounding
  leaves it alone.
\<close>

fun cost_add :: "cost \<Rightarrow> real \<Rightarrow> cost" where
  "cost_add (Finite a) w = fl (a + w)"
| "cost_add Infinity w = Infinity"
| "cost_add MInfinity w = MInfinity"

fun isinf :: "cost \<Rightarrow> bool" where
  "isinf (Finite a) = False"
| "isinf Infinity = True"
| "isinf MInfinity = True"

fun is_double :: "cost \<Rightarrow> bool" where
  "is_double (Finite a) = (fl a = Finite a)"
| "is_double Infinity = True"
| "is_double MInfinity = True"

text \<open>
  The graph as \<^verbatim>\<open>dijkstra_steps\<close> reads it: \<open>nodes\<close> is \<^verbatim>\<open>G.nodes\<close> in its enumeration
  order, and \<open>adj G u\<close> is the adjacency dictionary \<^verbatim>\<open>G[u]\<close> in its enumeration order,
  each neighbour with the \<^verbatim>\<open>weight\<close> attribute of the edge (\<open>None\<close> when the edge has no
  such attribute). For an undirected graph both directions of an edge are listed.
\<close>

record 'a graph =
  nodes :: "'a list"
  adj :: "'a \<Rightarrow> ('a \<times> real option) list"

text \<open>\<^verbatim>\<open>G[current][nbr].get("weight", 1.0)\<close>\<close>

definition get_weight :: "real option \<Rightarrow> real" where
  "get_weight a = (case a of Some w \<Rightarrow> w | None \<Rightarrow> 1)"

text \<open>
  What the graph library guarantees of every graph object: node ids are unique, the keys of
  an adjacency dictionary are unique, and every neighbour is itself a node.
\<close>

definition wf_graph :: "'a graph \<Rightarrow> bool" where
  "wf_graph G \<longleftrightarrow>
     distinct (nodes G) \<and>
     (\<forall>u \<in> set (nodes G).
        distinct (map fst (adj G u)) \<and> (\<forall>e \<in> set (adj G u). fst e \<in> set (nodes G)))"

text \<open>The invariant of the specification's Graph: no edge has a negative weight.\<close>

definition nonneg_weights :: "'a graph \<Rightarrow> bool" where
  "nonneg_weights G \<longleftrightarrow>
     (\<forall>u \<in> set (nodes G). \<forall>e \<in> set (adj G u). 0 \<le> get_weight (snd e))"

text \<open>
  One entry of a step's \<^verbatim>\<open>trying\<close> list. \<open>att_i\<close> and \<open>att_j\<close> are the keys \<^verbatim>\<open>"i"\<close> and
  \<^verbatim>\<open>"j"\<close>; the other fields carry the names of their keys.
\<close>

record 'a attempt =
  att_i :: 'a
  att_j :: 'a
  link_cost :: real
  perm_cost :: cost
  temp_cost :: cost
  selected :: string
  deleted :: string

text \<open>
  One step. \<open>closed_s\<close>, \<open>dist_s\<close> and \<open>prev_s\<close> are the keys \<^verbatim>\<open>"closed"\<close>, \<^verbatim>\<open>"dist"\<close>
  and \<^verbatim>\<open>"prev"\<close>: the copies \<^verbatim>\<open>set(closed)\<close>, \<^verbatim>\<open>dict(dist)\<close>, \<^verbatim>\<open>dict(prev)\<close>.
  A dictionary is a partial map; in \<open>prev_s\<close> the value \<open>None\<close> of Python is \<open>Some None\<close>,
  and a missing key is \<open>None\<close>.
\<close>

record 'a step =
  iter :: int
  trying :: "'a attempt list"
  selected_node :: "'a option"
  closed_s :: "'a set"
  dist_s :: "'a \<rightharpoonup> cost"
  prev_s :: "'a \<rightharpoonup> 'a option"

text \<open>The local variables of \<^verbatim>\<open>dijkstra_steps\<close> that live across loop iterations.\<close>

record 'a loop_state =
  dist_w :: "'a \<rightharpoonup> cost"
  prev_w :: "'a \<rightharpoonup> 'a option"
  closed_w :: "'a set"
  open_set :: "'a list"
  steps :: "'a step list"
  iteration :: int

section \<open>The step-recording engine\<close>

text \<open>\<^verbatim>\<open>d[k]\<close>: raises \<^verbatim>\<open>KeyError\<close> when the key is missing.\<close>

definition getitem :: "('k \<rightharpoonup> 'v) \<Rightarrow> 'k \<Rightarrow> py_error + 'v" where
  "getitem d k = (case d k of None \<Rightarrow> Inl KeyError | Some v \<Rightarrow> Inr v)"

text \<open>\<^verbatim>\<open>{n: v for n in G.nodes}\<close>\<close>

definition dict_init :: "'k list \<Rightarrow> 'v \<Rightarrow> ('k \<rightharpoonup> 'v)" where
  "dict_init ks v = (\<lambda>k. if k \<in> set ks then Some v else None)"

text \<open>
  \<^verbatim>\<open>min(open_set, key=lambda n: dist[n])\<close>. The list is the collection in its iteration
  order. \<^verbatim>\<open>min\<close> keeps the first element whose key is smallest: a later element replaces
  the current one only when its key is strictly less. On an empty collection it raises
  \<^verbatim>\<open>ValueError\<close>.
\<close>

fun min_loop :: "('a \<rightharpoonup> cost) \<Rightarrow> 'a \<Rightarrow> cost \<Rightarrow> 'a list \<Rightarrow> py_error + 'a" where
  "min_loop d best bk [] = Inr best"
| "min_loop d best bk (x # xs) =
     (case getitem d x of
        Inl e \<Rightarrow> Inl e
      | Inr k \<Rightarrow> if k < bk then min_loop d x k xs else min_loop d best bk xs)"

definition py_min :: "('a \<rightharpoonup> cost) \<Rightarrow> 'a list \<Rightarrow> py_error + 'a" where
  "py_min d xs =
     (case xs of
        [] \<Rightarrow> Inl ValueError
      | x # xs' \<Rightarrow> (case getitem d x of Inl e \<Rightarrow> Inl e | Inr k \<Rightarrow> min_loop d x k xs'))"

text \<open>
  The body of \<^verbatim>\<open>for nbr in G.neighbors(current)\<close> for one neighbour. The state of the
  inner loop is \<open>(dst, prv, trying_logs)\<close> for \<^verbatim>\<open>dist\<close>, \<^verbatim>\<open>prev\<close> and
  \<^verbatim>\<open>trying_logs\<close>; \<open>cl\<close> is \<^verbatim>\<open>closed\<close>, which the inner loop does not change.
\<close>

definition relax ::
  "'a \<Rightarrow> 'a set \<Rightarrow> ('a \<rightharpoonup> cost) \<times> ('a \<rightharpoonup> 'a option) \<times> 'a attempt list \<Rightarrow> 'a \<times> real option
   \<Rightarrow> py_error + (('a \<rightharpoonup> cost) \<times> ('a \<rightharpoonup> 'a option) \<times> 'a attempt list)" where
  "relax current cl s e =
     (case s of (dst, prv, trying_logs) \<Rightarrow>
      case e of (nbr, a) \<Rightarrow>
        if nbr \<in> cl then
          (case getitem dst current of
             Inl err \<Rightarrow> Inl err
           | Inr dc \<Rightarrow>
               Inr (dst, prv,
                    trying_logs @
                      [\<lparr>att_i = current, att_j = nbr, link_cost = get_weight a,
                        perm_cost = dc, temp_cost = cost_add dc (get_weight a),
                        selected = ''N/A'', deleted = ''already_closed''\<rparr>]))
        else
          (case getitem dst current of
             Inl err \<Rightarrow> Inl err
           | Inr dc \<Rightarrow>
               (case getitem dst nbr of
                  Inl err \<Rightarrow> Inl err
                | Inr dn \<Rightarrow>
                    if cost_add dc (get_weight a) < dn then
                      Inr (dst(nbr \<mapsto> cost_add dc (get_weight a)),
                           prv(nbr \<mapsto> Some current),
                           trying_logs @
                             [\<lparr>att_i = current, att_j = nbr, link_cost = get_weight a,
                               perm_cost = dc, temp_cost = cost_add dc (get_weight a),
                               selected = ''N/A'', deleted = ''NA''\<rparr>])
                    else
                      Inr (dst, prv,
                           trying_logs @
                             [\<lparr>att_i = current, att_j = nbr, link_cost = get_weight a,
                               perm_cost = dc, temp_cost = cost_add dc (get_weight a),
                               selected = ''N/A'', deleted = ''NA''\<rparr>]))))"

text \<open>The whole \<^verbatim>\<open>for\<close> loop: it stops at the first exception.\<close>

fun relax_all ::
  "'a \<Rightarrow> 'a set \<Rightarrow> ('a \<rightharpoonup> cost) \<times> ('a \<rightharpoonup> 'a option) \<times> 'a attempt list
   \<Rightarrow> ('a \<times> real option) list
   \<Rightarrow> py_error + (('a \<rightharpoonup> cost) \<times> ('a \<rightharpoonup> 'a option) \<times> 'a attempt list)" where
  "relax_all current cl s [] = Inr s"
| "relax_all current cl s (e # es) =
     (case relax current cl s e of
        Inl err \<Rightarrow> Inl err
      | Inr s' \<Rightarrow> relax_all current cl s' es)"

text \<open>
  One pass through the body of \<^verbatim>\<open>while open_set\<close>: it ends in a \<^verbatim>\<open>break\<close> with the
  final list of steps, or hands the next state to the loop test.
  \<^verbatim>\<open>open_set.remove(current)\<close> raises \<^verbatim>\<open>KeyError\<close> when the element is missing.
\<close>

datatype 'a outcome = Break "'a step list" | Continue "'a loop_state"

definition loop_body :: "'a graph \<Rightarrow> 'a option \<Rightarrow> 'a loop_state \<Rightarrow> py_error + 'a outcome" where
  "loop_body G goal s =
     (case py_min (dist_w s) (open_set s) of
        Inl err \<Rightarrow> Inl err
      | Inr current \<Rightarrow>
     (case getitem (dist_w s) current of
        Inl err \<Rightarrow> Inl err
      | Inr dc \<Rightarrow>
          if isinf dc then
            Inr (Break (steps s @
              [\<lparr>iter = iteration s + 1, trying = [], selected_node = None,
                closed_s = closed_w s, dist_s = dist_w s, prev_s = prev_w s\<rparr>]))
          else
            (case relax_all current (closed_w s) (dist_w s, prev_w s, []) (adj G current) of
               Inl err \<Rightarrow> Inl err
             | Inr (dst, prv, trying_logs) \<Rightarrow>
                 if current \<notin> set (open_set s) then Inl KeyError
                 else if goal = Some current then
                   Inr (Break (steps s @
                     [\<lparr>iter = iteration s + 1, trying = trying_logs,
                       selected_node = Some current,
                       closed_s = insert current (closed_w s),
                       dist_s = dst, prev_s = prv\<rparr>]))
                 else
                   Inr (Continue
                     \<lparr>dist_w = dst, prev_w = prv,
                      closed_w = insert current (closed_w s),
                      open_set = remove1 current (open_set s),
                      steps = steps s @
                        [\<lparr>iter = iteration s + 1, trying = trying_logs,
                          selected_node = Some current,
                          closed_s = insert current (closed_w s),
                          dist_s = dst, prev_s = prv\<rparr>],
                      iteration = iteration s + 1\<rparr>))))"

text \<open>\<^verbatim>\<open>while open_set: ...\<close> followed by \<^verbatim>\<open>return steps\<close>.\<close>

function dijkstra_loop :: "'a graph \<Rightarrow> 'a option \<Rightarrow> 'a loop_state \<Rightarrow> py_error + 'a step list" where
  "dijkstra_loop G goal s =
     (if open_set s = [] then Inr (steps s)
      else (case loop_body G goal s of
              Inl err \<Rightarrow> Inl err
            | Inr (Break r) \<Rightarrow> Inr r
            | Inr (Continue s') \<Rightarrow> dijkstra_loop G goal s'))"
  by pat_completeness auto
termination
proof (relation "measure (\<lambda>(G, goal, s). length (open_set s))")
  fix G :: "'a graph" and goal :: "'a option" and s s' :: "'a loop_state" and x
  assume "open_set s \<noteq> []" and "loop_body G goal s = Inr x" and "x = Continue s'"
  then obtain current where c: "current \<in> set (open_set s)"
    and o: "open_set s' = remove1 current (open_set s)"
    by (auto simp: loop_body_def split: sum.splits if_splits prod.splits)
  from c have "0 < length (open_set s)" by (rule length_pos_if_in_set)
  with c o have "length (open_set s') < length (open_set s)"
    by (simp add: length_remove1)
  then show "((G, goal, s'), (G, goal, s)) \<in> measure (\<lambda>(G, goal, s). length (open_set s))"
    by simp
qed simp

declare dijkstra_loop.simps [simp del]

text \<open>
  \<^verbatim>\<open>dijkstra_steps(G, start, goal)\<close>. Python leaves the iteration order of the set
  \<^verbatim>\<open>open_set = set(G.nodes)\<close> open, and \<^verbatim>\<open>min\<close> breaks ties by that order: the order is
  the parameter \<open>ord\<close>, a list of the nodes of the graph, each once. Removing an element
  does not reorder the others.
\<close>

definition dijkstra_steps ::
  "'a list \<Rightarrow> 'a graph \<Rightarrow> 'a \<Rightarrow> 'a option \<Rightarrow> py_error + 'a step list" where
  "dijkstra_steps ord G start goal =
     (if start \<notin> set (nodes G) then Inl ValueError
      else dijkstra_loop G goal
             \<lparr>dist_w = (dict_init (nodes G) Infinity)(start \<mapsto> Finite 0),
              prev_w = dict_init (nodes G) None,
              closed_w = {},
              open_set = ord,
              steps = [],
              iteration = 0\<rparr>)"

definition set_order :: "'a list \<Rightarrow> 'a graph \<Rightarrow> bool" where
  "set_order ord G \<longleftrightarrow> distinct ord \<and> set ord = set (nodes G)"

section \<open>The path reconstructor\<close>

text \<open>
  The \<^verbatim>\<open>while node is not None\<close> loop of \<^verbatim>\<open>reconstruct_path\<close>; it returns the final
  value of \<^verbatim>\<open>path\<close>. The loop has no bound of its own, so the result is an option:
  \<open>None\<close> when the loop runs forever.
\<close>

partial_function (option) walk_loop ::
  "('a \<rightharpoonup> 'a option) \<Rightarrow> 'a \<Rightarrow> 'a option \<Rightarrow> 'a list \<Rightarrow> (py_error + 'a list) option" where
  "walk_loop prev start node path =
     (case node of
        None \<Rightarrow> Some (Inr path)
      | Some n \<Rightarrow>
          if n = start then Some (Inr (path @ [n]))
          else (case prev n of
                  None \<Rightarrow> Some (Inl KeyError)
                | Some p \<Rightarrow> walk_loop prev start p (path @ [n])))"

definition reconstruct_path ::
  "('a \<rightharpoonup> 'a option) \<Rightarrow> 'a \<Rightarrow> 'a \<Rightarrow> (py_error + 'a list) option" where
  "reconstruct_path prev start goal =
     (case walk_loop prev start (Some goal) [] of
        None \<Rightarrow> None
      | Some (Inl err) \<Rightarrow> Some (Inl err)
      | Some (Inr path) \<Rightarrow>
          if path = [] \<or> last path \<noteq> start then Some (Inr []) else Some (Inr (rev path)))"

section \<open>Notions of the specification\<close>

text \<open>
  The backward walk of the specification: a non-empty list of nodes in which every node but
  the last differs from \<open>start\<close> and has the next node as its recorded predecessor.
\<close>

text \<open>Two predecessor maps for concrete runs of the reconstructor.\<close>

definition prev_chain :: "nat \<rightharpoonup> nat option" where
  "prev_chain = [1 \<mapsto> None, 2 \<mapsto> Some 1, 3 \<mapsto> Some 2, 4 \<mapsto> None]"

definition prev_dangling :: "nat \<rightharpoonup> nat option" where
  "prev_dangling = [1 \<mapsto> None, 2 \<mapsto> Some 1, 3 \<mapsto> Some 7]"

fun backward_walk :: "('a \<rightharpoonup> 'a option) \<Rightarrow> 'a \<Rightarrow> 'a list \<Rightarrow> bool" where
  "backward_walk prev start [] = False"
| "backward_walk prev start [x] = True"
| "backward_walk prev start (x # y # ys) =
     (x \<noteq> start \<and> prev x = Some (Some y) \<and> backward_walk prev start (y # ys))"

text \<open>The entry \<^verbatim>\<open>trying_logs\<close> receives for neighbour \<open>v\<close> when \<^verbatim>\<open>dist[current]\<close> is \<open>dc\<close>.\<close>

definition attempt_of :: "'a \<Rightarrow> 'a set \<Rightarrow> cost \<Rightarrow> 'a \<times> real option \<Rightarrow> 'a attempt" where
  "attempt_of c cl dc e =
     \<lparr>att_i = c, att_j = fst e, link_cost = get_weight (snd e), perm_cost = dc,
      temp_cost = cost_add dc (get_weight (snd e)), selected = ''N/A'',
      deleted = (if fst e \<in> cl then ''already_closed'' else ''NA'')\<rparr>"

text \<open>Whether the attempt on \<open>e\<close> changes \<^verbatim>\<open>dist\<close> and \<^verbatim>\<open>prev\<close>.\<close>

definition improves :: "'a set \<Rightarrow> cost \<Rightarrow> cost \<Rightarrow> 'a \<times> real option \<Rightarrow> bool" where
  "improves cl dc dv e \<longleftrightarrow> fst e \<notin> cl \<and> cost_add dc (get_weight (snd e)) < dv"

text \<open>The step appended when no open node is reachable, and the state after a selection.\<close>

definition terminal_step :: "'a loop_state \<Rightarrow> 'a step" where
  "terminal_step s =
     \<lparr>iter = iteration s + 1, trying = [], selected_node = None,
      closed_s = closed_w s, dist_s = dist_w s, prev_s = prev_w s\<rparr>"

definition advance ::
  "'a loop_state \<Rightarrow> 'a \<Rightarrow> ('a \<rightharpoonup> cost) \<Rightarrow> ('a \<rightharpoonup> 'a option) \<Rightarrow> 'a attempt list \<Rightarrow> 'a loop_state" where
  "advance s c dst prv logs =
     \<lparr>dist_w = dst, prev_w = prv,
      closed_w = insert c (closed_w s),
      open_set = remove1 c (open_set s),
      steps = steps s @
        [\<lparr>iter = iteration s + 1, trying = logs, selected_node = Some c,
          closed_s = insert c (closed_w s), dist_s = dst, prev_s = prv\<rparr>],
      iteration = iteration s + 1\<rparr>"

definition init_state :: "'a list \<Rightarrow> 'a graph \<Rightarrow> 'a \<Rightarrow> 'a loop_state" where
  "init_state ord G start =
     \<lparr>dist_w = (dict_init (nodes G) Infinity)(start \<mapsto> Finite 0),
      prev_w = dict_init (nodes G) None,
      closed_w = {},
      open_set = ord,
      steps = [],
      iteration = 0\<rparr>"

text \<open>What every state of the loop satisfies: the dictionaries have the nodes as keys, and
  the open and the closed nodes partition the nodes.\<close>

definition basic_inv :: "'a graph \<Rightarrow> 'a loop_state \<Rightarrow> bool" where
  "basic_inv G s \<longleftrightarrow>
     dom (dist_w s) = set (nodes G) \<and> dom (prev_w s) = set (nodes G) \<and>
     distinct (open_set s) \<and> set (open_set s) \<inter> closed_w s = {} \<and>
     set (open_set s) \<union> closed_w s = set (nodes G)"

text \<open>
  Two graphs for concrete runs. The first is the sample payload of \<^verbatim>\<open>app.py\<close>
  (undirected, so every edge is listed at both ends, in the order in which the edges were
  added), with the node ids written as numbers and with the weights 2.1, 0.9 and 1.2,
  which are no doubles but denote the doubles next to them, replaced by 2, 1 and 1.25.
  The second is directed: a chain \<open>1 \<rightarrow> 2 \<rightarrow> 3\<close> whose second edge has no weight
  attribute, and an isolated node.
\<close>

definition sample_graph :: "nat graph" where
  "sample_graph =
     \<lparr>nodes = [1, 2, 3, 4],
      adj = (\<lambda>u. if u = 1 then [(2, Some 1.5), (3, Some 2)]
                 else if u = 2 then [(1, Some 1.5), (3, Some 1), (4, Some 2)]
                 else if u = 3 then [(1, Some 2), (2, Some 1), (4, Some 1.25)]
                 else if u = 4 then [(2, Some 2), (3, Some 1.25)]
                 else [])\<rparr>"

definition chain_graph :: "nat graph" where
  "chain_graph =
     \<lparr>nodes = [1, 2, 3, 4],
      adj = (\<lambda>u. if u = 1 then [(2, Some 1)]
                 else if u = 2 then [(3, None)]
                 else [])\<rparr>"

text \<open>
  A later step \<open>lt\<close> against an earlier step \<open>st\<close>: the closed set has only grown, no
  recorded distance has grown, and the distance of a node closed in \<open>st\<close> is unchanged.
\<close>

definition step_le :: "'a step \<Rightarrow> 'a step \<Rightarrow> bool" where
  "step_le st lt \<longleftrightarrow>
     closed_s st \<subseteq> closed_s lt \<and>
     (\<forall>n d. dist_s st n = Some d \<longrightarrow>
        (\<exists>d'. dist_s lt n = Some d' \<and> d' \<le> d \<and> (n \<in> closed_s st \<longrightarrow> d' = d)))"

text \<open>The steps of three runs on these graphs (the empty list if the run raised).\<close>

definition the_steps :: "py_error + 'a step list \<Rightarrow> 'a step list" where
  "the_steps x = (case x of Inl e \<Rightarrow> [] | Inr r \<Rightarrow> r)"

definition sample_steps :: "nat step list" where
  "sample_steps = the_steps (dijkstra_steps [1, 2, 3, 4] sample_graph 1 None)"

definition chain_steps :: "nat step list" where
  "chain_steps = the_steps (dijkstra_steps [1, 2, 3, 4] chain_graph 1 None)"

definition chain_goal_steps :: "nat step list" where
  "chain_goal_steps = the_steps (dijkstra_steps [1, 2, 3, 4] chain_graph 1 (Some 2))"

text \<open>A loop state whose only open node has distance \<^verbatim>\<open>math.inf\<close>.\<close>

definition stuck_state :: "nat loop_state" where
  "stuck_state =
     \<lparr>dist_w = [1 \<mapsto> Finite 0, 4 \<mapsto> Infinity], prev_w = [1 \<mapsto> None, 4 \<mapsto> None],
      closed_w = {1}, open_set = [4], steps = [], iteration = 1\<rparr>"

text \<open>
  What holds of the steps recorded so far, whatever the goal: every step selected a node,
  and the \<open>k\<close>-th step has closed \<open>k\<close> nodes.
\<close>

definition count_inv :: "'a loop_state \<Rightarrow> bool" where
  "count_inv s \<longleftrightarrow>
     (\<forall>y \<in> set (steps s). selected_node y \<noteq> None \<and> closed_s y \<subseteq> closed_w s) \<and>
     length (steps s) = card (closed_w s) \<and>
     (\<forall>k < length (steps s). card (closed_s (steps s ! k)) = k + 1)"

text \<open>
  What the log entry \<open>a\<close> records for the neighbour entry \<open>e\<close> of the selected node \<open>c\<close>,
  where \<open>cl\<close> is the closed set before the selection and \<open>before\<close>, \<open>after\<close> are the
  distances before and after the step: the two endpoints, the weight, the distance of \<open>c\<close>
  (before or after the step: they differ only if \<open>c\<close> improved itself over a loop edge), a
  candidate distance that is this distance plus the weight, and the constant \<^verbatim>\<open>"N/A"\<close>
  under \<^verbatim>\<open>"selected"\<close>. Under \<^verbatim>\<open>"deleted"\<close> it records \<^verbatim>\<open>"already_closed"\<close> for a neighbour
  that was closed, whose distance the step leaves alone, and \<^verbatim>\<open>"NA"\<close> for any other
  neighbour, whose distance after the step is the candidate when the candidate is strictly
  less than the distance before, and the distance before otherwise.
\<close>

definition attempt_ok ::
  "'a \<Rightarrow> 'a set \<Rightarrow> ('a \<rightharpoonup> cost) \<Rightarrow> ('a \<rightharpoonup> cost) \<Rightarrow> 'a \<times> real option \<Rightarrow> 'a attempt \<Rightarrow> bool" where
  "attempt_ok c cl before after e a \<longleftrightarrow>
     att_i a = c \<and> att_j a = fst e \<and> link_cost a = get_weight (snd e) \<and>
     (Some (perm_cost a) = before c \<or> Some (perm_cost a) = after c) \<and>
     temp_cost a = cost_add (perm_cost a) (link_cost a) \<and>
     selected a = ''N/A'' \<and>
     (if fst e \<in> cl
      then deleted a = ''already_closed'' \<and> after (fst e) = before (fst e)
      else deleted a = ''NA'' \<and>
        (\<exists>dv. before (fst e) = Some dv \<and>
              after (fst e) = Some (if temp_cost a < dv then temp_cost a else dv)))"

text \<open>The distances before step \<open>k\<close> of a run: the initial ones, or those of step \<open>k - 1\<close>.\<close>

definition dist_before :: "'a graph \<Rightarrow> 'a \<Rightarrow> 'a step list \<Rightarrow> nat \<Rightarrow> ('a \<rightharpoonup> cost)" where
  "dist_before G start r k =
     (if k = 0 then (dict_init (nodes G) Infinity)(start \<mapsto> Finite 0)
      else dist_s (r ! (k - 1)))"

text \<open>What step \<open>k\<close> of a run logs and changes: for a selected node one entry per neighbour
  entry, in the order of the adjacency, each as described above, and no distance changed
  but those of neighbours; for the terminal step no entry and no change.\<close>

definition attempts_logged :: "'a graph \<Rightarrow> 'a \<Rightarrow> 'a step list \<Rightarrow> nat \<Rightarrow> bool" where
  "attempts_logged G start r k =
     (case selected_node (r ! k) of
        None \<Rightarrow> trying (r ! k) = [] \<and> dist_s (r ! k) = dist_before G start r k
      | Some u \<Rightarrow>
          list_all2 (attempt_ok u (closed_s (r ! k) - {u}) (dist_before G start r k)
                       (dist_s (r ! k)))
            (adj G u) (trying (r ! k)) \<and>
          (\<forall>n. n \<notin> fst ` set (adj G u) \<longrightarrow> dist_s (r ! k) n = dist_before G start r k n))"

text \<open>A node is improved by step \<open>j\<close> of a run if the step logs an attempt on it that was not
  skipped and whose candidate is strictly less than the distance before the step.\<close>

definition improved_at :: "'a graph \<Rightarrow> 'a \<Rightarrow> 'a step list \<Rightarrow> nat \<Rightarrow> 'a \<Rightarrow> bool" where
  "improved_at G start r j n \<longleftrightarrow>
     (\<exists>a \<in> set (trying (r ! j)). att_j a = n \<and> deleted a = ''NA'' \<and>
        (\<exists>dv. dist_before G start r j n = Some dv \<and> temp_cost a < dv))"

text \<open>A directed line \<open>1 \<rightarrow> 2 \<rightarrow> 3 \<rightarrow> 4\<close>, and the run from 1 to the goal 2 on it.\<close>

definition line_graph :: "nat graph" where
  "line_graph =
     \<lparr>nodes = [1, 2, 3, 4],
      adj = (\<lambda>u. if u = 1 then [(2, Some 1)]
                 else if u = 2 then [(3, Some 2)]
                 else if u = 3 then [(4, Some 1)]
                 else [])\<rparr>"

definition line_goal_steps :: "nat step list" where
  "line_goal_steps = the_steps (dijkstra_steps [1, 2, 3, 4] line_graph 1 (Some 2))"

text \<open>
  Three properties of a closed set with its distances and predecessors. Every distance is a
  double. Every predecessor is closed, differs from its node, and has an edge to the node
  whose weight, added to the distance of the predecessor, gives the distance of the node.
  The predecessors are ranked: closed nodes rank below a bound and open nodes at the bound,
  and a predecessor ranks below its node.
\<close>

definition all_doubles :: "('a \<rightharpoonup> cost) \<Rightarrow> bool" where
  "all_doubles dst \<longleftrightarrow> (\<forall>n x. dst n = Some x \<longrightarrow> is_double x)"

definition pred_consistent ::
  "'a graph \<Rightarrow> 'a set \<Rightarrow> ('a \<rightharpoonup> cost) \<Rightarrow> ('a \<rightharpoonup> 'a option) \<Rightarrow> bool" where
  "pred_consistent G cl dst prv \<longleftrightarrow>
     (\<forall>n p. prv n = Some (Some p) \<longrightarrow>
        p \<in> cl \<and> n \<noteq> p \<and>
        (\<exists>a dp. (n, a) \<in> set (adj G p) \<and> dst p = Some dp \<and>
                dst n = Some (cost_add dp (get_weight a))))"

definition ranked :: "'a set \<Rightarrow> ('a \<rightharpoonup> 'a option) \<Rightarrow> bool" where
  "ranked cl prv \<longleftrightarrow>
     (\<exists>(f :: 'a \<Rightarrow> nat) K. (\<forall>q \<in> cl. f q < K) \<and> (\<forall>v. v \<notin> cl \<longrightarrow> f v = K) \<and>
        (\<forall>n p. prv n = Some (Some p) \<longrightarrow> f p < f n))"

section \<open>The path reconstructor: results\<close>

lemma walk_loop_None [simp]: "walk_loop prev start None path = Some (Inr path)"
  by (simp add: walk_loop.simps)

lemma walk_loop_start [simp]:
  "walk_loop prev start (Some start) path = Some (Inr (path @ [start]))"
  by (simp add: walk_loop.simps)

text \<open>Along a backward walk the loop appends the walk and goes on from its last node.\<close>

lemma walk_loop_follow:
  "backward_walk prev start (x # xs) \<Longrightarrow>
   walk_loop prev start (Some x) path =
     (if last (x # xs) = start then Some (Inr (path @ x # xs))
      else case prev (last (x # xs)) of
             None \<Rightarrow> Some (Inl KeyError)
           | Some p \<Rightarrow> walk_loop prev start p (path @ x # xs))"
proof (induction xs arbitrary: x path)
  case Nil
  show ?case by (subst walk_loop.simps) (simp split: option.splits)
next
  case (Cons y ys)
  from Cons.prems have x: "x \<noteq> start" "prev x = Some (Some y)"
    and w: "backward_walk prev start (y # ys)" by simp_all
  have "walk_loop prev start (Some x) path = walk_loop prev start (Some y) (path @ [x])"
    using x by (subst walk_loop.simps) simp
  also note Cons.IH [OF w, of "path @ [x]"]
  finally show ?case by (simp split: option.splits)
qed

text \<open>
  C2. For every predecessor map, start and goal: \<open>reconstruct_path prev start start\<close> returns
  \<open>[start]\<close>; if the backward walk from the goal reaches the start, the result is that walk
  reversed; if the walk ends at a node other than the start whose predecessor is absent
  (Python's \<open>None\<close>), the result is the empty list and no error.
\<close>

theorem reconstruct_path_cases:
  "reconstruct_path prev start start = Some (Inr [start]) \<and>
   (backward_walk prev start w \<and> hd w = goal \<and> last w = start \<longrightarrow>
      reconstruct_path prev start goal = Some (Inr (rev w))) \<and>
   (backward_walk prev start w \<and> hd w = goal \<and> last w \<noteq> start \<and>
    prev (last w) = Some None \<longrightarrow>
      reconstruct_path prev start goal = Some (Inr []))"
proof (intro conjI impI)
  show "reconstruct_path prev start start = Some (Inr [start])"
    by (simp add: reconstruct_path_def)
next
  assume a: "backward_walk prev start w \<and> hd w = goal \<and> last w = start"
  then obtain xs where w: "w = goal # xs" by (cases w) auto
  with a have "walk_loop prev start (Some goal) [] = Some (Inr w)"
    using walk_loop_follow [of prev start goal xs "[]"] by simp
  with a w show "reconstruct_path prev start goal = Some (Inr (rev w))"
    by (simp add: reconstruct_path_def)
next
  assume a: "backward_walk prev start w \<and> hd w = goal \<and> last w \<noteq> start \<and>
    prev (last w) = Some None"
  then obtain xs where w: "w = goal # xs" by (cases w) auto
  with a have "walk_loop prev start (Some goal) [] = Some (Inr w)"
    using walk_loop_follow [of prev start goal xs "[]"] by simp
  with a w show "reconstruct_path prev start goal = Some (Inr [])"
    by (simp add: reconstruct_path_def)
qed

theorem reconstruct_path_cases_witness:
  "reconstruct_path prev_chain 1 1 = Some (Inr [1]) \<and>
   (backward_walk prev_chain 1 [3, 2, 1] \<and>
    reconstruct_path prev_chain 1 3 = Some (Inr [1, 2, 3])) \<and>
   (backward_walk prev_chain 1 [4] \<and> prev_chain 4 = Some None \<and>
    reconstruct_path prev_chain 1 4 = Some (Inr []))"
  using reconstruct_path_cases [of prev_chain 1 "[3, 2, 1]" 3]
    reconstruct_path_cases [of prev_chain 1 "[4]" 4]
  by (simp add: prev_chain_def)

text \<open>
  C10. For every goal that differs from the start and is not a key of the predecessor map,
  \<open>reconstruct_path\<close> raises \<^verbatim>\<open>KeyError\<close> instead of returning the empty list; more
  generally it does so whenever the backward walk ends at a node other than the start that
  is not a key of the map.
\<close>

theorem reconstruct_path_missing_key:
  "(goal \<noteq> start \<and> prev goal = None \<longrightarrow>
      reconstruct_path prev start goal = Some (Inl KeyError)) \<and>
   (backward_walk prev start w \<and> hd w = goal \<and> last w \<noteq> start \<and> prev (last w) = None \<longrightarrow>
      reconstruct_path prev start goal = Some (Inl KeyError))"
proof (intro conjI impI)
  assume "goal \<noteq> start \<and> prev goal = None"
  then have "walk_loop prev start (Some goal) [] = Some (Inl KeyError)"
    by (subst walk_loop.simps) simp
  then show "reconstruct_path prev start goal = Some (Inl KeyError)"
    by (simp add: reconstruct_path_def)
next
  assume a: "backward_walk prev start w \<and> hd w = goal \<and> last w \<noteq> start \<and>
    prev (last w) = None"
  then obtain xs where w: "w = goal # xs" by (cases w) auto
  with a have "walk_loop prev start (Some goal) [] = Some (Inl KeyError)"
    using walk_loop_follow [of prev start goal xs "[]"] by simp
  then show "reconstruct_path prev start goal = Some (Inl KeyError)"
    by (simp add: reconstruct_path_def)
qed

theorem reconstruct_path_missing_key_witness:
  "(5::nat) \<noteq> 1 \<and> prev_dangling 5 = None \<and>
   reconstruct_path prev_dangling 1 5 = Some (Inl KeyError) \<and>
   backward_walk prev_dangling 1 [3, 7] \<and> prev_dangling 7 = None \<and>
   reconstruct_path prev_dangling 1 3 = Some (Inl KeyError)"
  using reconstruct_path_missing_key [of 5 1 prev_dangling "[5]"]
    reconstruct_path_missing_key [of 3 1 prev_dangling "[3, 7]"]
  by (simp add: prev_dangling_def)

section \<open>Floating-point rounding\<close>

lemma pow2_less_exp: "(2::real) powi a < 2 powi b \<Longrightarrow> a < b"
proof (rule ccontr)
  assume l: "(2::real) powi a < 2 powi b" and "\<not> a < b"
  then have "b \<le> a" by simp
  then have "(2::real) powi b \<le> 2 powi a" by (intro power_int_increasing) simp_all
  with l show False by simp
qed

lemma pow2_split: "(2::real) powi (a + b) = 2 powi a * 2 powi b"
  by (rule power_int_add) simp

lemma binade_finite [simp]: "finite {e \<in> {a..b::int}. P e}"
  by (rule finite_subset [where B = "{a..b}"]) auto

lemma binade_in:
  "binade x = - 1022 \<or> (- 1022 \<le> binade x \<and> binade x \<le> 1024 \<and> 2 powi binade x \<le> \<bar>x\<bar>)"
proof -
  let ?S = "insert (- 1022) {e \<in> {- 1022..1024}. 2 powi e \<le> \<bar>x\<bar>}"
  have "finite ?S" by (simp only: finite_insert binade_finite)
  then have "Max ?S \<in> ?S" by (rule Max_in) simp
  then show ?thesis unfolding binade_def by auto
qed

lemma binade_range: "- 1022 \<le> binade x" "binade x \<le> 1024"
  using binade_in [of x] by auto

lemma binade_lower: "binade x \<noteq> - 1022 \<Longrightarrow> 2 powi binade x \<le> \<bar>x\<bar>"
  using binade_in [of x] by auto

lemma binade_ge: "- 1022 \<le> e \<Longrightarrow> e \<le> 1024 \<Longrightarrow> 2 powi e \<le> \<bar>x\<bar> \<Longrightarrow> e \<le> binade x"
  unfolding binade_def by (rule Max_ge) (simp_all only: finite_insert binade_finite, simp)

lemma binade_upper:
  assumes "binade x < 1024"
  shows "\<bar>x\<bar> < 2 powi (binade x + 1)"
proof (rule ccontr)
  assume "\<not> \<bar>x\<bar> < 2 powi (binade x + 1)"
  then have "2 powi (binade x + 1) \<le> \<bar>x\<bar>" by simp
  with assms binade_range(1) [of x] have "binade x + 1 \<le> binade x"
    by (intro binade_ge) simp_all
  then show False by simp
qed

lemma binade_mono:
  assumes "\<bar>x\<bar> \<le> \<bar>y\<bar>"
  shows "binade x \<le> binade y"
  unfolding binade_def
proof (rule Max_mono)
  show "insert (- 1022) {e \<in> {- 1022..1024}. 2 powi e \<le> \<bar>x\<bar>} \<subseteq>
      insert (- 1022) {e \<in> {- 1022..1024}. 2 powi e \<le> \<bar>y\<bar>}"
    using assms by auto
  show "insert (- 1022) {e \<in> {- 1022..1024}. 2 powi e \<le> \<bar>x\<bar>} \<noteq> {}" by simp
  show "finite (insert (- 1022) {e \<in> {- 1022..1024}. 2 powi e \<le> \<bar>y\<bar>})"
    by (simp only: finite_insert binade_finite)
qed

lemma ulp_pos [simp]: "0 < ulp x"
  by (simp add: ulp_def)

lemma ulp_nonneg [simp]: "0 \<le> ulp x"
  by (simp add: ulp_def)

lemma ulp_neq0 [simp]: "ulp x \<noteq> 0"
  by (simp add: ulp_def)

lemma pow2_ulp: "(2::real) powi (binade x + k) = 2 powi (k + 52) * ulp x"
proof -
  have "binade x + k = (k + 52) + (binade x - 52)" by simp
  then have "(2::real) powi (binade x + k) = 2 powi ((k + 52) + (binade x - 52))"
    by (simp only:)
  then show ?thesis by (simp only: pow2_split ulp_def)
qed

lemma rhe_of_int [simp]: "round_half_even (of_int n) = n"
  by (simp add: round_half_even_def)

lemma rhe_bounds: "\<lfloor>q\<rfloor> \<le> round_half_even q" "round_half_even q \<le> \<lfloor>q\<rfloor> + 1"
  by (simp_all add: round_half_even_def)

lemma rhe_mono:
  assumes "q \<le> q'"
  shows "round_half_even q \<le> round_half_even q'"
proof (cases "\<lfloor>q\<rfloor> = \<lfloor>q'\<rfloor>")
  case True
  with assms have "q - of_int \<lfloor>q\<rfloor> \<le> q' - of_int \<lfloor>q'\<rfloor>" by simp
  with True show ?thesis by (auto simp: round_half_even_def)
next
  case False
  moreover from assms have "\<lfloor>q\<rfloor> \<le> \<lfloor>q'\<rfloor>" by (rule floor_mono)
  ultimately have "\<lfloor>q\<rfloor> + 1 \<le> \<lfloor>q'\<rfloor>" by simp
  with rhe_bounds(2) [of q] rhe_bounds(1) [of q'] show ?thesis by linarith
qed

lemma rhe_le_int: "q \<le> of_int n \<Longrightarrow> round_half_even q \<le> n"
  using rhe_mono [of q "of_int n"] by simp

lemma rhe_ge_int: "of_int n \<le> q \<Longrightarrow> n \<le> round_half_even q"
  using rhe_mono [of "of_int n" q] by simp

lemma rhe_nonneg: "0 \<le> round_half_even (\<bar>x\<bar> / ulp x)"
proof -
  have "(of_int 0 :: real) \<le> \<bar>x\<bar> / ulp x" by simp
  then show ?thesis by (rule rhe_ge_int)
qed

lemma nearest_nonneg: "0 \<le> nearest x"
  using rhe_nonneg [of x] by (simp add: nearest_def)

lemma nearest_upper:
  assumes "binade x < 1024"
  shows "nearest x \<le> 2 powi (binade x + 1)"
proof -
  have s: "(2::real) powi (binade x + 1) = 2 powi 53 * ulp x"
    using pow2_ulp [of x 1] by simp
  from assms have "\<bar>x\<bar> < 2 powi (binade x + 1)" by (rule binade_upper)
  with s have "\<bar>x\<bar> / ulp x \<le> 2 powi 53" by (simp add: field_simps)
  then have "\<bar>x\<bar> / ulp x \<le> of_int (2 ^ 53)" by simp
  then have "round_half_even (\<bar>x\<bar> / ulp x) \<le> 2 ^ 53" by (rule rhe_le_int)
  then have "(of_int (round_half_even (\<bar>x\<bar> / ulp x)) :: real) \<le> of_int (2 ^ 53)"
    by (simp only: of_int_le_iff)
  then have "nearest x \<le> of_int (2 ^ 53) * ulp x"
    unfolding nearest_def by (intro mult_right_mono) simp_all
  with s show ?thesis by simp
qed

lemma nearest_lower:
  assumes "binade x \<noteq> - 1022"
  shows "2 powi binade x \<le> nearest x"
proof -
  have s: "(2::real) powi binade x = 2 powi 52 * ulp x"
    using pow2_ulp [of x 0] by simp
  from assms have "2 powi binade x \<le> \<bar>x\<bar>" by (rule binade_lower)
  with s have "2 powi 52 \<le> \<bar>x\<bar> / ulp x" by (simp add: field_simps)
  then have "of_int (2 ^ 52) \<le> \<bar>x\<bar> / ulp x" by simp
  then have "2 ^ 52 \<le> round_half_even (\<bar>x\<bar> / ulp x)" by (rule rhe_ge_int)
  then have "(of_int (2 ^ 52) :: real) \<le> of_int (round_half_even (\<bar>x\<bar> / ulp x))"
    by (simp only: of_int_le_iff)
  then have "of_int (2 ^ 52) * ulp x \<le> nearest x"
    unfolding nearest_def by (intro mult_right_mono) simp_all
  with s show ?thesis by simp
qed

lemma nearest_mono:
  assumes "\<bar>x\<bar> \<le> \<bar>y\<bar>"
  shows "nearest x \<le> nearest y"
proof (cases "binade x = binade y")
  case True
  then have u: "ulp x = ulp y" by (simp add: ulp_def)
  with assms have "\<bar>x\<bar> / ulp x \<le> \<bar>y\<bar> / ulp y" by (simp add: divide_right_mono)
  then have "round_half_even (\<bar>x\<bar> / ulp x) \<le> round_half_even (\<bar>y\<bar> / ulp y)"
    by (rule rhe_mono)
  then have "(of_int (round_half_even (\<bar>x\<bar> / ulp x)) :: real) \<le>
      of_int (round_half_even (\<bar>y\<bar> / ulp y))" by (simp only: of_int_le_iff)
  then show ?thesis unfolding nearest_def u by (intro mult_right_mono) simp_all
next
  case False
  with binade_mono [OF assms] have lt: "binade x < binade y" by simp
  with binade_range(2) [of y] have "binade x < 1024" by simp
  then have "nearest x \<le> 2 powi (binade x + 1)" by (rule nearest_upper)
  also from lt have "(2::real) powi (binade x + 1) \<le> 2 powi binade y"
    by (intro power_int_increasing) simp_all
  also from lt binade_range(1) [of x] have "binade y \<noteq> - 1022" by simp
  then have "2 powi binade y \<le> nearest y" by (rule nearest_lower)
  finally show ?thesis .
qed

lemma nearest_0 [simp]: "nearest 0 = 0"
  using rhe_of_int [of 0] by (simp add: nearest_def)

lemma fl_nonneg: "0 \<le> x \<Longrightarrow> Finite 0 \<le> fl x"
  using nearest_nonneg [of x] by (simp add: fl_def sgn_if)

lemma fl_nonpos: "x \<le> 0 \<Longrightarrow> fl x \<le> Finite 0"
  using nearest_nonneg [of x] by (simp add: fl_def sgn_if)

lemma fl_mono:
  assumes "x \<le> y"
  shows "fl x \<le> fl y"
proof -
  consider "x \<le> 0" "0 \<le> y" | "0 < x" | "y < 0" by linarith
  then show ?thesis
  proof cases
    case 1
    then have "fl x \<le> Finite 0" "Finite 0 \<le> fl y" by (simp_all add: fl_nonpos fl_nonneg)
    then show ?thesis by (rule order_trans)
  next
    case 2
    with assms have "\<bar>x\<bar> \<le> \<bar>y\<bar>" "0 < y" by simp_all
    with nearest_mono [of x y] 2 show ?thesis by (simp add: fl_def)
  next
    case 3
    with assms have "\<bar>y\<bar> \<le> \<bar>x\<bar>" "x < 0" by simp_all
    with nearest_mono [of y x] 3 show ?thesis by (simp add: fl_def)
  qed
qed

lemma fl_exact:
  assumes "\<bar>x\<bar> / ulp x = of_int n" and "\<bar>x\<bar> < 2 ^ 1024"
  shows "fl x = Finite x"
proof -
  have "ulp x \<noteq> 0" by simp
  moreover from assms(1) have "nearest x = \<bar>x\<bar> / ulp x * ulp x" by (simp add: nearest_def)
  ultimately have n: "nearest x = \<bar>x\<bar>" by simp
  with assms(2) show ?thesis by (simp add: fl_def mult_sgn_abs)
qed

lemma fl_dyadic:
  assumes x: "x = of_int m * 2 powi j" and j: "- 1074 \<le> j" and m: "\<bar>m\<bar> < 2 ^ 53"
    and b: "\<bar>x\<bar> < 2 ^ 1024"
  shows "fl x = Finite x"
proof -
  from x have ax: "\<bar>x\<bar> = of_int \<bar>m\<bar> * 2 powi j" by (simp add: abs_mult)
  have k: "0 \<le> j + 52 - binade x"
  proof (cases "binade x = - 1022")
    case True
    with j show ?thesis by simp
  next
    case False
    then have "2 powi binade x \<le> \<bar>x\<bar>" by (rule binade_lower)
    also from m have "(of_int \<bar>m\<bar> :: real) < of_int (2 ^ 53)" by (simp only: of_int_less_iff)
    then have "of_int \<bar>m\<bar> * 2 powi j < of_int (2 ^ 53) * (2::real) powi j"
      by (intro mult_strict_right_mono) simp_all
    with ax have "\<bar>x\<bar> < 2 powi 53 * 2 powi j" by simp
    also have "(2::real) powi 53 * 2 powi j = 2 powi (53 + j)" by (simp only: pow2_split)
    finally have "binade x < 53 + j" by (rule pow2_less_exp)
    then show ?thesis by simp
  qed
  have "\<bar>x\<bar> / ulp x = of_int \<bar>m\<bar> * (2 powi j / 2 powi (binade x - 52))"
    by (simp add: ax ulp_def)
  also have "(2::real) powi j / 2 powi (binade x - 52) = 2 powi (j - (binade x - 52))"
    by (rule power_int_diff [symmetric]) simp
  also have "j - (binade x - 52) = j + 52 - binade x" by simp
  also from k have "(2::real) powi (j + 52 - binade x) = 2 ^ nat (j + 52 - binade x)"
    by (rule power_int_nonneg_exp)
  finally have "\<bar>x\<bar> / ulp x = of_int (\<bar>m\<bar> * 2 ^ nat (j + 52 - binade x))" by simp
  then show ?thesis using b by (rule fl_exact)
qed

lemma fl_idem:
  assumes "fl x = Finite r"
  shows "fl r = Finite r"
proof -
  let ?n = "round_half_even (\<bar>x\<bar> / ulp x)"
  define sg :: int where "sg = (if x < 0 then - 1 else if 0 < x then 1 else 0)"
  have sg: "sgn x = of_int sg" "\<bar>sg\<bar> \<le> 1" by (simp_all add: sg_def sgn_if)
  from assms have small: "nearest x < 2 ^ 1024" and r: "r = sgn x * nearest x"
    by (simp_all add: fl_def split: if_splits)
  have n0: "0 \<le> ?n" by (rule rhe_nonneg)
  have e: "binade x < 1024"
  proof (rule ccontr)
    assume "\<not> binade x < 1024"
    with binade_range(2) [of x] have "binade x = 1024" by simp
    with nearest_lower [of x] have "2 powi 1024 \<le> nearest x" by simp
    with small show False by simp
  qed
  have "nearest x \<le> 2 powi 53 * ulp x"
    using nearest_upper [OF e] pow2_ulp [of x 1] by simp
  then have "of_int ?n * ulp x \<le> of_int (2 ^ 53) * ulp x" by (simp add: nearest_def)
  then have "(of_int ?n :: real) \<le> of_int (2 ^ 53)" by (simp only: mult_le_cancel_right_pos ulp_pos)
  then have n53: "?n \<le> 2 ^ 53" by (simp only: of_int_le_iff)
  have ar: "\<bar>r\<bar> < 2 ^ 1024"
  proof -
    have "\<bar>r\<bar> = \<bar>sgn x\<bar> * nearest x" using nearest_nonneg [of x] by (simp add: r abs_mult)
    also have "\<dots> \<le> 1 * nearest x"
      using nearest_nonneg [of x] by (intro mult_right_mono) (simp_all add: sgn_if)
    finally show ?thesis using small by simp
  qed
  show ?thesis
  proof (cases "?n = 2 ^ 53")
    case True
    then have "nearest x = 2 powi 53 * ulp x" by (simp add: nearest_def)
    then have "nearest x = 2 powi (binade x + 1)" using pow2_ulp [of x 1] by simp
    with r sg have "r = of_int sg * 2 powi (binade x + 1)" by simp
    moreover from binade_range(1) [of x] have "- 1074 \<le> binade x + 1" by simp
    moreover from sg(2) have "\<bar>sg\<bar> < 2 ^ 53" by simp
    ultimately show ?thesis using ar by (rule fl_dyadic)
  next
    case False
    with n53 have lt: "?n < 2 ^ 53" by simp
    from r sg have "r = of_int (sg * ?n) * 2 powi (binade x - 52)"
      by (simp add: nearest_def ulp_def)
    moreover from binade_range(1) [of x] have "- 1074 \<le> binade x - 52" by simp
    moreover have "\<bar>sg * ?n\<bar> < 2 ^ 53"
    proof -
      have "\<bar>sg * ?n\<bar> = \<bar>sg\<bar> * ?n" using n0 by (simp add: abs_mult)
      also from sg(2) n0 have "\<dots> \<le> 1 * ?n" by (intro mult_right_mono) simp_all
      finally show ?thesis using lt by simp
    qed
    ultimately show ?thesis using ar by (rule fl_dyadic)
  qed
qed

lemma fl_0 [simp]: "fl 0 = Finite 0"
  by (simp add: fl_def)

lemma fl_1 [simp]: "fl 1 = Finite 1"
  by (rule fl_dyadic [where m = 1 and j = 0]) simp_all

lemma numeral_bound:
  assumes "(numeral k :: int) < 2 ^ 53"
  shows "\<bar>numeral k :: int\<bar> < 2 ^ 53" and "(numeral k :: real) < 2 ^ 1024"
proof -
  from assms show "\<bar>numeral k :: int\<bar> < 2 ^ 53" by simp
  from assms have "(of_int (numeral k) :: real) < of_int (2 ^ 53)"
    by (simp only: of_int_less_iff)
  also have "(of_int (2 ^ 53) :: real) \<le> 2 ^ 1024" by simp
  finally show "(numeral k :: real) < 2 ^ 1024" by simp
qed

lemma abs_div_le: "0 \<le> (a::real) \<Longrightarrow> 1 \<le> c \<Longrightarrow> \<bar>a / c\<bar> \<le> a"
proof -
  assume a: "0 \<le> a" and c: "1 \<le> c"
  then have "a / c \<le> a / 1" by (intro divide_left_mono) simp_all
  with a c show ?thesis by simp
qed

lemma fl_numeral:
  assumes "(numeral k :: int) < 2 ^ 53"
  shows "fl (numeral k) = Finite (numeral k)"
proof (rule fl_dyadic [where m = "numeral k" and j = "0"])
  show "(numeral k :: real) = of_int (numeral k) * 2 powi (0)" by (simp add: power_int_minus)
  show "- 1074 \<le> (0 :: int)" by simp
  show "\<bar>numeral k :: int\<bar> < 2 ^ 53" using assms by (rule numeral_bound(1))
  have "\<bar>numeral k :: real\<bar> \<le> numeral k" by simp
  also have "(numeral k :: real) < 2 ^ 1024" using assms by (rule numeral_bound(2))
  finally show "\<bar>numeral k :: real\<bar> < 2 ^ 1024" .
qed

lemma fl_half:
  assumes "(numeral k :: int) < 2 ^ 53"
  shows "fl (numeral k / 2) = Finite (numeral k / 2)"
proof (rule fl_dyadic [where m = "numeral k" and j = "- 1"])
  show "(numeral k / 2 :: real) = of_int (numeral k) * 2 powi (- 1)" by (simp add: power_int_minus)
  show "- 1074 \<le> (- 1 :: int)" by simp
  show "\<bar>numeral k :: int\<bar> < 2 ^ 53" using assms by (rule numeral_bound(1))
  have "\<bar>numeral k / 2 :: real\<bar> \<le> numeral k" by (rule abs_div_le) simp_all
  also have "(numeral k :: real) < 2 ^ 1024" using assms by (rule numeral_bound(2))
  finally show "\<bar>numeral k / 2 :: real\<bar> < 2 ^ 1024" .
qed

lemma fl_quarter:
  assumes "(numeral k :: int) < 2 ^ 53"
  shows "fl (numeral k / 4) = Finite (numeral k / 4)"
proof (rule fl_dyadic [where m = "numeral k" and j = "- 2"])
  show "(numeral k / 4 :: real) = of_int (numeral k) * 2 powi (- 2)" by (simp add: power_int_minus)
  show "- 1074 \<le> (- 2 :: int)" by simp
  show "\<bar>numeral k :: int\<bar> < 2 ^ 53" using assms by (rule numeral_bound(1))
  have "\<bar>numeral k / 4 :: real\<bar> \<le> numeral k" by (rule abs_div_le) simp_all
  also have "(numeral k :: real) < 2 ^ 1024" using assms by (rule numeral_bound(2))
  finally show "\<bar>numeral k / 4 :: real\<bar> < 2 ^ 1024" .
qed

section \<open>Distances\<close>

lemma cost_less_simps [simp]:
  "Finite a < Finite b \<longleftrightarrow> a < b"
  "Finite a < Infinity"
  "\<not> Infinity < c"
  "MInfinity < Finite a"
  "MInfinity < Infinity"
  "\<not> c < MInfinity"
  by (cases c; auto simp: less_cost_def)+

lemma cost_le_Infinity [simp]: "c \<le> Infinity"
  by (cases c) simp_all

lemma Infinity_le_iff [simp]: "Infinity \<le> c \<longleftrightarrow> c = Infinity"
  by (cases c) simp_all

lemma le_MInfinity_iff [simp]: "c \<le> MInfinity \<longleftrightarrow> c = MInfinity"
  by (cases c) simp_all

lemma cost_add_mono: "a \<le> b \<Longrightarrow> cost_add a w \<le> cost_add b w"
  by (cases a; cases b) (simp_all add: fl_mono)

lemma is_double_cost_add: "is_double (cost_add a w)"
proof (cases a)
  case (Finite x)
  show ?thesis
  proof (cases "fl (x + w)")
    case (Finite r)
    then have "fl r = Finite r" by (rule fl_idem)
    with Finite \<open>a = Finite x\<close> show ?thesis by simp
  qed (simp_all add: Finite)
qed simp_all

lemma cost_add_nonneg: "is_double a \<Longrightarrow> 0 \<le> w \<Longrightarrow> a \<le> cost_add a w"
proof (cases a)
  case (Finite x)
  assume "is_double a" "0 \<le> w"
  with Finite have "fl x = Finite x" "x \<le> x + w" by simp_all
  with fl_mono [of x "x + w"] Finite show ?thesis by simp
qed simp_all

lemma binade_eqI:
  assumes "- 1022 \<le> e" and "e \<le> 1023" and "2 powi e \<le> \<bar>x\<bar>" and "\<bar>x\<bar> < 2 powi (e + 1)"
  shows "binade x = e"
proof (rule antisym)
  from assms(1-3) show "e \<le> binade x" by (intro binade_ge) simp_all
  show "binade x \<le> e"
  proof (cases "binade x = - 1022")
    case True
    with assms(1) show ?thesis by simp
  next
    case False
    then have "2 powi binade x \<le> \<bar>x\<bar>" by (rule binade_lower)
    also note assms(4)
    finally have "binade x < e + 1" by (rule pow2_less_exp)
    then show ?thesis by simp
  qed
qed

lemma fl_tie: "fl (1 + 1 / 2 ^ 53) = Finite 1"
proof -
  have b: "binade (9007199254740993 / 9007199254740992) = 0"
    by (rule binade_eqI) simp_all
  show ?thesis
    by (simp add: fl_def nearest_def ulp_def b round_half_even_def power_int_minus)
qed

lemma fl_overflow: "fl (2 ^ 1023 + 2 ^ 1023) = Infinity"
proof -
  have "2 powi 1024 \<le> nearest (2 ^ 1023 + 2 ^ 1023)"
  proof (rule order_trans [OF _ nearest_lower])
    have "(1024::int) \<le> binade (2 ^ 1023 + 2 ^ 1023)" by (rule binade_ge) simp_all
    then show "(2::real) powi 1024 \<le> 2 powi binade (2 ^ 1023 + 2 ^ 1023)"
      by (intro power_int_increasing) simp_all
    from \<open>1024 \<le> binade (2 ^ 1023 + 2 ^ 1023)\<close>
    show "binade (2 ^ 1023 + 2 ^ 1023) \<noteq> - 1022" by simp
  qed
  then show ?thesis by (simp add: fl_def)
qed

section \<open>The selection of the minimum\<close>

lemma getitem_Some [simp]: "d k = Some v \<Longrightarrow> getitem d k = Inr v"
  by (simp add: getitem_def)

lemma getitem_None [simp]: "d k = None \<Longrightarrow> getitem d k = Inl KeyError"
  by (simp add: getitem_def)

lemma min_loop_correct:
  assumes "set xs \<subseteq> dom d" and "d best = Some bk"
  shows "\<exists>c k. min_loop d best bk xs = Inr c \<and> c \<in> insert best (set xs) \<and> d c = Some k \<and>
           k \<le> bk \<and> (\<forall>x \<in> set xs. \<forall>kx. d x = Some kx \<longrightarrow> k \<le> kx)"
  using assms
proof (induction xs arbitrary: best bk)
  case Nil
  then show ?case by simp
next
  case (Cons x xs)
  from Cons.prems obtain kx where kx: "d x = Some kx" by auto
  from Cons.prems have sub: "set xs \<subseteq> dom d" by simp
  show ?case
  proof (cases "kx < bk")
    case True
    from Cons.IH [OF sub kx] obtain c k where
      "min_loop d x kx xs = Inr c" "c \<in> insert x (set xs)" "d c = Some k" "k \<le> kx"
      "\<forall>y \<in> set xs. \<forall>ky. d y = Some ky \<longrightarrow> k \<le> ky" by blast
    with True kx show ?thesis by auto
  next
    case False
    from Cons.IH [OF sub Cons.prems(2)] obtain c k where
      "min_loop d best bk xs = Inr c" "c \<in> insert best (set xs)" "d c = Some k" "k \<le> bk"
      "\<forall>y \<in> set xs. \<forall>ky. d y = Some ky \<longrightarrow> k \<le> ky" by blast
    with False kx show ?thesis by auto
  qed
qed

lemma py_min_correct:
  assumes "xs \<noteq> []" and "set xs \<subseteq> dom d"
  shows "\<exists>c k. py_min d xs = Inr c \<and> c \<in> set xs \<and> d c = Some k \<and>
           (\<forall>x \<in> set xs. \<forall>kx. d x = Some kx \<longrightarrow> k \<le> kx)"
proof -
  from assms obtain x xs' where xs: "xs = x # xs'" by (cases xs) auto
  with assms obtain kx where kx: "d x = Some kx" by auto
  from assms xs have "set xs' \<subseteq> dom d" by simp
  from min_loop_correct [OF this kx] obtain c k where
    "min_loop d x kx xs' = Inr c" "c \<in> insert x (set xs')" "d c = Some k" "k \<le> kx"
    "\<forall>y \<in> set xs'. \<forall>ky. d y = Some ky \<longrightarrow> k \<le> ky" by blast
  with xs kx show ?thesis by (auto simp: py_min_def)
qed

section \<open>The relaxation loop\<close>

lemma relax_eq:
  assumes "dst c = Some dc" and "dst (fst e) = Some dv"
  shows "relax c cl (dst, prv, logs) e =
     Inr (if improves cl dc dv e
          then (dst(fst e \<mapsto> cost_add dc (get_weight (snd e))), prv(fst e \<mapsto> Some c),
                logs @ [attempt_of c cl dc e])
          else (dst, prv, logs @ [attempt_of c cl dc e]))"
  using assms by (cases e) (simp add: relax_def improves_def attempt_of_def)

text \<open>
  An invariant \<open>P\<close> of the relaxation loop, over the neighbours handled so far and the three
  variables, holds at the end; and the loop raises nothing when the current node and the
  neighbours are keys of \<^verbatim>\<open>dist\<close>.
\<close>

lemma relax_all_rule:
  assumes init: "P [] dst prv logs"
    and c: "c \<in> dom dst" and sub: "fst ` set es \<subseteq> dom dst"
    and step: "\<And>ps e rest d p l dc dv.
       es = ps @ e # rest \<Longrightarrow> P ps d p l \<Longrightarrow> dom d = dom dst \<Longrightarrow>
       d c = Some dc \<Longrightarrow> d (fst e) = Some dv \<Longrightarrow>
       P (ps @ [e])
         (if improves cl dc dv e then d(fst e \<mapsto> cost_add dc (get_weight (snd e))) else d)
         (if improves cl dc dv e then p(fst e \<mapsto> Some c) else p)
         (l @ [attempt_of c cl dc e])"
  shows "\<exists>dst' prv' logs'. relax_all c cl (dst, prv, logs) es = Inr (dst', prv', logs') \<and>
           P es dst' prv' logs' \<and> dom dst' = dom dst"
  using init c sub step
proof (induction es arbitrary: P dst prv logs)
  case Nil
  then show ?case by simp
next
  case (Cons e es)
  from Cons.prems(2) obtain dc where dc: "dst c = Some dc" by auto
  from Cons.prems(3) obtain dv where dv: "dst (fst e) = Some dv" by auto
  let ?d = "if improves cl dc dv e then dst(fst e \<mapsto> cost_add dc (get_weight (snd e))) else dst"
  let ?p = "if improves cl dc dv e then prv(fst e \<mapsto> Some c) else prv"
  let ?l = "logs @ [attempt_of c cl dc e]"
  have r: "relax c cl (dst, prv, logs) e = Inr (?d, ?p, ?l)"
    using relax_eq [OF dc dv] by simp
  have dom: "dom ?d = dom dst" using dv by auto
  have P1: "P [e] ?d ?p ?l"
    using Cons.prems(4) [of "[]" e es dst prv logs dc dv] Cons.prems(1) dc dv by simp
  have "\<exists>dst' prv' logs'. relax_all c cl (?d, ?p, ?l) es = Inr (dst', prv', logs') \<and>
          (\<lambda>ps. P (e # ps)) es dst' prv' logs' \<and> dom dst' = dom ?d"
  proof (rule Cons.IH)
    show "P [e] ?d ?p ?l" by (rule P1)
    show "c \<in> dom ?d" using Cons.prems(2) dom by simp
    show "fst ` set es \<subseteq> dom ?d" using Cons.prems(3) dom by simp
  next
    fix ps e' rest d p l dc' dv'
    assume "es = ps @ e' # rest" "P (e # ps) d p l" "dom d = dom ?d"
      "d c = Some dc'" "d (fst e') = Some dv'"
    then show "P (e # ps @ [e'])
         (if improves cl dc' dv' e' then d(fst e' \<mapsto> cost_add dc' (get_weight (snd e'))) else d)
         (if improves cl dc' dv' e' then p(fst e' \<mapsto> Some c) else p)
         (l @ [attempt_of c cl dc' e'])"
      using Cons.prems(4) [of "e # ps" e' rest d p l dc' dv'] dom by simp
  qed
  with r dom show ?case by auto
qed

section \<open>One pass of the main loop\<close>

lemma relax_all_dom_prev:
  assumes "relax_all c cl (dst, prv, logs) es = Inr (dst', prv', logs')"
    and "c \<in> dom dst" and "fst ` set es \<subseteq> dom dst" and "fst ` set es \<subseteq> dom prv"
  shows "dom dst' = dom dst \<and> dom prv' = dom prv"
proof -
  have "\<exists>dst' prv' logs'. relax_all c cl (dst, prv, logs) es = Inr (dst', prv', logs') \<and>
          (\<lambda>ps d p l. dom p = dom prv) es dst' prv' logs' \<and> dom dst' = dom dst"
  proof (rule relax_all_rule [OF _ assms(2,3)])
    show "dom prv = dom prv" ..
  next
    fix ps e rest d and p :: "'a \<rightharpoonup> 'a option" and l dc dv
    assume "es = ps @ e # rest" "dom p = dom prv"
    with assms(4) have "fst e \<in> dom p" by auto
    then show "dom (if improves cl dc dv e then p(fst e \<mapsto> Some c) else p) = dom prv"
      using \<open>dom p = dom prv\<close> by auto
  qed
  with assms(1) show ?thesis by simp
qed

lemma basic_inv_advance:
  assumes wf: "wf_graph G" and b: "basic_inv G s" and c: "c \<in> set (open_set s)"
    and r: "relax_all c (closed_w s) (dist_w s, prev_w s, []) (adj G c) = Inr (dst, prv, logs)"
  shows "basic_inv G (advance s c dst prv logs)"
proof -
  from b c have cn: "c \<in> set (nodes G)" by (auto simp: basic_inv_def)
  with wf have nb: "fst ` set (adj G c) \<subseteq> set (nodes G)" by (auto simp: wf_graph_def)
  from b cn nb have "dom dst = dom (dist_w s) \<and> dom prv = dom (prev_w s)"
    by (intro relax_all_dom_prev [OF r]) (auto simp: basic_inv_def)
  with b c show ?thesis
    by (auto simp: basic_inv_def advance_def)
qed

lemma loop_body_cases:
  assumes wf: "wf_graph G" and b: "basic_inv G s" and ne: "open_set s \<noteq> []"
  obtains
    (terminal) c d where
      "c \<in> set (open_set s)" "dist_w s c = Some d" "isinf d"
      "\<forall>x \<in> set (open_set s). \<forall>dx. dist_w s x = Some dx \<longrightarrow> d \<le> dx"
      "loop_body G goal s = Inr (Break (steps s @ [terminal_step s]))"
  | (select) c dc dst prv logs where
      "c \<in> set (open_set s)" "dist_w s c = Some (Finite dc)"
      "\<forall>x \<in> set (open_set s). \<forall>dx. dist_w s x = Some dx \<longrightarrow> Finite dc \<le> dx"
      "relax_all c (closed_w s) (dist_w s, prev_w s, []) (adj G c) = Inr (dst, prv, logs)"
      "loop_body G goal s =
         Inr (if goal = Some c then Break (steps (advance s c dst prv logs))
              else Continue (advance s c dst prv logs))"
proof -
  from b have sub: "set (open_set s) \<subseteq> dom (dist_w s)" by (auto simp: basic_inv_def)
  from py_min_correct [OF ne sub] obtain c k where
    m: "py_min (dist_w s) (open_set s) = Inr c" and c: "c \<in> set (open_set s)"
    and k: "dist_w s c = Some k"
    and least: "\<forall>x \<in> set (open_set s). \<forall>kx. dist_w s x = Some kx \<longrightarrow> k \<le> kx" by blast
  have stop: thesis if "isinf k"
  proof -
    have "loop_body G goal s = Inr (Break (steps s @ [terminal_step s]))"
      using m k that by (simp add: loop_body_def terminal_step_def)
    with c k that least show thesis by (rule terminal)
  qed
  show thesis
  proof (cases k)
    case Infinity
    then show thesis by (intro stop) simp
  next
    case MInfinity
    then show thesis by (intro stop) simp
  next
    case (Finite dc)
    from b c have cn: "c \<in> set (nodes G)" by (auto simp: basic_inv_def)
    with wf have nb: "fst ` set (adj G c) \<subseteq> set (nodes G)" by (auto simp: wf_graph_def)
    have "\<exists>dst prv logs.
        relax_all c (closed_w s) (dist_w s, prev_w s, []) (adj G c) = Inr (dst, prv, logs) \<and>
        (\<lambda>ps d p l. True) (adj G c) dst prv logs \<and> dom dst = dom (dist_w s)"
      using b cn nb by (intro relax_all_rule) (auto simp: basic_inv_def)
    then obtain dst prv logs where
      r: "relax_all c (closed_w s) (dist_w s, prev_w s, []) (adj G c) = Inr (dst, prv, logs)"
      by blast
    have lb: "loop_body G goal s =
         Inr (if goal = Some c then Break (steps (advance s c dst prv logs))
              else Continue (advance s c dst prv logs))"
      using m k Finite r c by (simp add: loop_body_def advance_def)
    from k Finite have kf: "dist_w s c = Some (Finite dc)" by simp
    from least Finite
    have lf: "\<forall>x \<in> set (open_set s). \<forall>dx. dist_w s x = Some dx \<longrightarrow> Finite dc \<le> dx"
      by simp
    show thesis by (rule select [OF c kf lf r lb])
  qed
qed

section \<open>The main loop\<close>

lemma dijkstra_loop_rule:
  assumes "I s"
    and "\<And>s. I s \<Longrightarrow> open_set s = [] \<Longrightarrow> Q (steps s)"
    and "\<And>s. I s \<Longrightarrow> open_set s \<noteq> [] \<Longrightarrow>
       (\<exists>r. loop_body G goal s = Inr (Break r) \<and> Q r) \<or>
       (\<exists>s'. loop_body G goal s = Inr (Continue s') \<and> I s')"
  shows "\<exists>r. dijkstra_loop G goal s = Inr r \<and> Q r"
  using assms
proof (induction G goal s rule: dijkstra_loop.induct)
  case (1 G goal s)
  note I = "1.prems"(1) and fin = "1.prems"(2) and body = "1.prems"(3)
  show ?case
  proof (cases "open_set s = []")
    case True
    with fin [OF I] show ?thesis by (subst dijkstra_loop.simps) simp
  next
    case False
    from body [OF I False] show ?thesis
    proof
      assume "\<exists>r. loop_body G goal s = Inr (Break r) \<and> Q r"
      then obtain r where "loop_body G goal s = Inr (Break r)" "Q r" by blast
      with False show ?thesis by (subst dijkstra_loop.simps) simp
    next
      assume "\<exists>s'. loop_body G goal s = Inr (Continue s') \<and> I s'"
      then obtain s' where s': "loop_body G goal s = Inr (Continue s')" "I s'" by blast
      have "\<exists>r. dijkstra_loop G goal s' = Inr r \<and> Q r"
        using False s'(1) refl s'(2) fin body by (rule "1.IH")
      then show ?thesis using False s'(1) by (subst dijkstra_loop.simps) simp
    qed
  qed
qed

lemma dijkstra_loop_inv:
  assumes wf: "wf_graph G" and b: "basic_inv G s" and J: "J s"
    and fin: "\<And>s. basic_inv G s \<Longrightarrow> J s \<Longrightarrow> open_set s = [] \<Longrightarrow> Q (steps s)"
    and tml: "\<And>s c d. basic_inv G s \<Longrightarrow> J s \<Longrightarrow>
       c \<in> set (open_set s) \<Longrightarrow> dist_w s c = Some d \<Longrightarrow> isinf d \<Longrightarrow>
       \<forall>x \<in> set (open_set s). \<forall>dx. dist_w s x = Some dx \<longrightarrow> d \<le> dx \<Longrightarrow>
       Q (steps s @ [terminal_step s])"
    and sel: "\<And>s c dc dst prv logs. basic_inv G s \<Longrightarrow> J s \<Longrightarrow>
       c \<in> set (open_set s) \<Longrightarrow> dist_w s c = Some (Finite dc) \<Longrightarrow>
       \<forall>x \<in> set (open_set s). \<forall>dx. dist_w s x = Some dx \<longrightarrow> Finite dc \<le> dx \<Longrightarrow>
       relax_all c (closed_w s) (dist_w s, prev_w s, []) (adj G c) = Inr (dst, prv, logs) \<Longrightarrow>
       basic_inv G (advance s c dst prv logs) \<Longrightarrow>
       (goal \<noteq> Some c \<longrightarrow> J (advance s c dst prv logs)) \<and>
       (goal = Some c \<longrightarrow> Q (steps (advance s c dst prv logs)))"
  shows "\<exists>r. dijkstra_loop G goal s = Inr r \<and> Q r"
proof (rule dijkstra_loop_rule [where I = "\<lambda>s. basic_inv G s \<and> J s"])
  show "basic_inv G s \<and> J s" using b J ..
next
  fix s assume "basic_inv G s \<and> J s" "open_set s = []"
  then show "Q (steps s)" using fin by blast
next
  fix s assume I: "basic_inv G s \<and> J s" and ne: "open_set s \<noteq> []"
  then have b: "basic_inv G s" and J: "J s" by simp_all
  from wf b ne
  show "(\<exists>r. loop_body G goal s = Inr (Break r) \<and> Q r) \<or>
        (\<exists>s'. loop_body G goal s = Inr (Continue s') \<and> basic_inv G s' \<and> J s')"
  proof (cases rule: loop_body_cases [where goal = goal])
    case (terminal c d)
    from tml [OF b J terminal(1-4)] terminal(5) show ?thesis by simp
  next
    case (select c dc dst prv logs)
    have ba: "basic_inv G (advance s c dst prv logs)"
      using wf b select(1,4) by (rule basic_inv_advance)
    from sel [OF b J select(1-4) ba] select(5) ba show ?thesis
      by (cases "goal = Some c") simp_all
  qed
qed

lemma dom_dict_init [simp]: "dom (dict_init ks v) = set ks"
  by (auto simp: dict_init_def dom_def)

lemma basic_inv_init:
  assumes "set_order ord G" and "start \<in> set (nodes G)"
  shows "basic_inv G (init_state ord G start)"
  using assms unfolding basic_inv_def init_state_def set_order_def
  by (simp add: insert_absorb)

lemma dijkstra_steps_eq:
  "start \<in> set (nodes G) \<Longrightarrow>
   dijkstra_steps ord G start goal = dijkstra_loop G goal (init_state ord G start)"
  by (simp add: dijkstra_steps_def init_state_def)

section \<open>The sample graphs\<close>

lemma wf_sample_graph: "wf_graph sample_graph"
  by (simp add: wf_graph_def sample_graph_def)

lemma order_sample_graph: "set_order [1, 2, 3, 4] sample_graph"
  by (simp add: set_order_def sample_graph_def)

lemma nonneg_sample_graph: "nonneg_weights sample_graph"
  by (simp add: nonneg_weights_def sample_graph_def get_weight_def)

lemma wf_chain_graph: "wf_graph chain_graph"
  by (simp add: wf_graph_def chain_graph_def)

lemma order_chain_graph: "set_order [1, 2, 3, 4] chain_graph"
  by (simp add: set_order_def chain_graph_def)

lemma nonneg_chain_graph: "nonneg_weights chain_graph"
  by (simp add: nonneg_weights_def chain_graph_def get_weight_def)

text \<open>
  C3. \<open>dijkstra_steps\<close> raises an error exactly when the start node is not a node of the
  graph; the error is then \<^verbatim>\<open>ValueError\<close>, and since the result is either an error or
  a list of steps, no steps come with it. For a start node of the graph the call returns
  a list of steps.
\<close>

theorem dijkstra_steps_error_iff:
  assumes "wf_graph G" and "set_order ord G"
  shows "((\<exists>e. dijkstra_steps ord G start goal = Inl e) \<longleftrightarrow> start \<notin> set (nodes G)) \<and>
         (start \<notin> set (nodes G) \<longrightarrow> dijkstra_steps ord G start goal = Inl ValueError) \<and>
         (start \<in> set (nodes G) \<longrightarrow> (\<exists>r. dijkstra_steps ord G start goal = Inr r))"
proof -
  have err: "dijkstra_steps ord G start goal = Inl ValueError" if "start \<notin> set (nodes G)"
    using that by (simp add: dijkstra_steps_def)
  have ok: "\<exists>r. dijkstra_steps ord G start goal = Inr r" if s: "start \<in> set (nodes G)"
  proof -
    have "\<exists>r. dijkstra_loop G goal (init_state ord G start) = Inr r \<and> True"
      using assms(1) basic_inv_init [OF assms(2) s]
      by (rule dijkstra_loop_inv [where J = "\<lambda>s. True"]) simp_all
    with s show ?thesis by (simp add: dijkstra_steps_eq)
  qed
  from err ok show ?thesis by (cases "start \<in> set (nodes G)") auto
qed

theorem dijkstra_steps_error_iff_witness:
  "wf_graph sample_graph \<and> set_order [1, 2, 3, 4] sample_graph \<and>
   7 \<notin> set (nodes sample_graph) \<and>
   dijkstra_steps [1, 2, 3, 4] sample_graph 7 (Some 4) = Inl ValueError \<and>
   1 \<in> set (nodes sample_graph) \<and>
   (\<exists>r. dijkstra_steps [1, 2, 3, 4] sample_graph 1 (Some 4) = Inr r)"
proof -
  have n: "7 \<notin> set (nodes sample_graph)" "1 \<in> set (nodes sample_graph)"
    by (simp_all add: sample_graph_def)
  from n(1) dijkstra_steps_error_iff [OF wf_sample_graph order_sample_graph, of 7 "Some 4"]
  have a: "dijkstra_steps [1, 2, 3, 4] sample_graph 7 (Some 4) = Inl ValueError" by blast
  from n(2) dijkstra_steps_error_iff [OF wf_sample_graph order_sample_graph, of 1 "Some 4"]
  have b: "\<exists>r. dijkstra_steps [1, 2, 3, 4] sample_graph 1 (Some 4) = Inr r" by blast
  from wf_sample_graph order_sample_graph n a b show ?thesis by blast
qed

section \<open>Distances never grow\<close>

lemma relax_all_mono:
  assumes r: "relax_all c cl (dst, prv, logs) es = Inr (dst', prv', logs')"
    and c: "c \<in> dom dst" and sub: "fst ` set es \<subseteq> dom dst"
  shows "\<forall>n x. dst n = Some x \<longrightarrow>
           (\<exists>d'. dst' n = Some d' \<and> d' \<le> x \<and> (n \<in> cl \<longrightarrow> d' = x))"
proof -
  let ?P = "\<lambda>(ps :: ('a \<times> real option) list) (d :: 'a \<rightharpoonup> cost)
              (p :: 'a \<rightharpoonup> 'a option) (l :: 'a attempt list).
      \<forall>n x. dst n = Some x \<longrightarrow> (\<exists>d'. d n = Some d' \<and> d' \<le> x \<and> (n \<in> cl \<longrightarrow> d' = x))"
  have "\<exists>dst' prv' logs'. relax_all c cl (dst, prv, logs) es = Inr (dst', prv', logs') \<and>
          ?P es dst' prv' logs' \<and> dom dst' = dom dst"
  proof (rule relax_all_rule [where P = ?P, OF _ c sub])
    show "?P [] dst prv logs" by simp
  next
    fix ps and e :: "'a \<times> real option" and rest d and p :: "'a \<rightharpoonup> 'a option"
      and l :: "'a attempt list" and dc dv
    assume P: "?P ps d p l" and dv: "d (fst e) = Some dv"
    show "?P (ps @ [e])
       (if improves cl dc dv e then d(fst e \<mapsto> cost_add dc (get_weight (snd e))) else d)
       (if improves cl dc dv e then p(fst e \<mapsto> Some c) else p)
       (l @ [attempt_of c cl dc e])"
    proof (cases "improves cl dc dv e")
      case False
      with P show ?thesis by simp
    next
      case True
      then have ncl: "fst e \<notin> cl" and lt: "cost_add dc (get_weight (snd e)) < dv"
        by (simp_all add: improves_def)
      show ?thesis
      proof (intro allI impI)
        fix n x assume nx: "dst n = Some x"
        with P obtain d' where d': "d n = Some d'" "d' \<le> x" "n \<in> cl \<longrightarrow> d' = x" by blast
        show "\<exists>d'. (if improves cl dc dv e
                    then d(fst e \<mapsto> cost_add dc (get_weight (snd e))) else d) n = Some d' \<and>
                d' \<le> x \<and> (n \<in> cl \<longrightarrow> d' = x)"
        proof (cases "n = fst e")
          case True
          with d' dv have "dv \<le> x" by simp
          with lt have "cost_add dc (get_weight (snd e)) \<le> x" by simp
          with True ncl \<open>improves cl dc dv e\<close> show ?thesis by simp
        next
          case False
          with d' \<open>improves cl dc dv e\<close> show ?thesis by simp
        qed
      qed
    qed
  qed
  with r show ?thesis by simp
qed

lemma step_le_fields:
  "dist_s a = dist_s b \<Longrightarrow> closed_s a = closed_s b \<Longrightarrow> step_le st a = step_le st b"
  by (simp add: step_le_def)

lemma step_le_same:
  "dist_s a = dist_s b \<Longrightarrow> closed_s a = closed_s b \<Longrightarrow> step_le a b"
  by (simp add: step_le_def)

lemma step_le_trans: "step_le a b \<Longrightarrow> step_le b c \<Longrightarrow> step_le a c"
  unfolding step_le_def
proof (intro conjI allI impI)
  assume ab: "closed_s a \<subseteq> closed_s b \<and>
      (\<forall>n d. dist_s a n = Some d \<longrightarrow>
        (\<exists>d'. dist_s b n = Some d' \<and> d' \<le> d \<and> (n \<in> closed_s a \<longrightarrow> d' = d)))"
    and bc: "closed_s b \<subseteq> closed_s c \<and>
      (\<forall>n d. dist_s b n = Some d \<longrightarrow>
        (\<exists>d'. dist_s c n = Some d' \<and> d' \<le> d \<and> (n \<in> closed_s b \<longrightarrow> d' = d)))"
  from ab bc show "closed_s a \<subseteq> closed_s c" by blast
  fix n d assume "dist_s a n = Some d"
  with ab obtain d1 where d1: "dist_s b n = Some d1" "d1 \<le> d" "n \<in> closed_s a \<longrightarrow> d1 = d"
    by blast
  with bc obtain d2 where d2: "dist_s c n = Some d2" "d2 \<le> d1" "n \<in> closed_s b \<longrightarrow> d2 = d1"
    by blast
  from ab d1 d2 show "\<exists>d'. dist_s c n = Some d' \<and> d' \<le> d \<and> (n \<in> closed_s a \<longrightarrow> d' = d)"
    by auto
qed

lemma neighbours_in_dom:
  assumes wf: "wf_graph G" and b: "basic_inv G s" and c: "c \<in> set (open_set s)"
  shows "c \<in> dom (dist_w s)" and "fst ` set (adj G c) \<subseteq> dom (dist_w s)"
    and "c \<in> set (nodes G)" and "c \<notin> closed_w s"
proof -
  from b c show cn: "c \<in> set (nodes G)" by (auto simp: basic_inv_def)
  from b cn show "c \<in> dom (dist_w s)" by (simp add: basic_inv_def)
  from wf cn have "fst ` set (adj G c) \<subseteq> set (nodes G)" by (auto simp: wf_graph_def)
  with b show "fst ` set (adj G c) \<subseteq> dom (dist_w s)" by (simp add: basic_inv_def)
  from b c show "c \<notin> closed_w s" by (auto simp: basic_inv_def)
qed

lemma relax_step_le:
  assumes wf: "wf_graph G" and b: "basic_inv G s" and c: "c \<in> set (open_set s)"
    and r: "relax_all c (closed_w s) (dist_w s, prev_w s, []) (adj G c) = Inr (dst, prv, logs)"
    and x: "dist_s x = dst" "closed_s x = insert c (closed_w s)"
  shows "step_le (terminal_step s) x"
proof -
  note m = relax_all_mono [OF r neighbours_in_dom(1,2) [OF wf b c]]
  show ?thesis unfolding step_le_def
  proof (intro conjI allI impI)
    show "closed_s (terminal_step s) \<subseteq> closed_s x"
      using x by (auto simp: terminal_step_def)
    fix n d assume "dist_s (terminal_step s) n = Some d"
    then have "dist_w s n = Some d" by (simp add: terminal_step_def)
    with m obtain d' where "dst n = Some d'" "d' \<le> d" "n \<in> closed_w s \<longrightarrow> d' = d" by blast
    then show "\<exists>d'. dist_s x n = Some d' \<and> d' \<le> d \<and>
        (n \<in> closed_s (terminal_step s) \<longrightarrow> d' = d)"
      using x by (simp add: terminal_step_def)
  qed
qed

lemma advance_fields [simp]:
  "steps (advance s c dst prv logs) =
     steps s @ [\<lparr>iter = iteration s + 1, trying = logs, selected_node = Some c,
                 closed_s = insert c (closed_w s), dist_s = dst, prev_s = prv\<rparr>]"
  "dist_w (advance s c dst prv logs) = dst"
  "prev_w (advance s c dst prv logs) = prv"
  "closed_w (advance s c dst prv logs) = insert c (closed_w s)"
  "open_set (advance s c dst prv logs) = remove1 c (open_set s)"
  "iteration (advance s c dst prv logs) = iteration s + 1"
  by (simp_all add: advance_def)

lemma terminal_step_fields [simp]:
  "iter (terminal_step s) = iteration s + 1"
  "trying (terminal_step s) = []"
  "selected_node (terminal_step s) = None"
  "closed_s (terminal_step s) = closed_w s"
  "dist_s (terminal_step s) = dist_w s"
  "prev_s (terminal_step s) = prev_w s"
  by (simp_all add: terminal_step_def)

lemma init_state_fields [simp]:
  "steps (init_state ord G start) = []"
  "closed_w (init_state ord G start) = {}"
  "open_set (init_state ord G start) = ord"
  "dist_w (init_state ord G start) = (dict_init (nodes G) Infinity)(start \<mapsto> Finite 0)"
  "prev_w (init_state ord G start) = dict_init (nodes G) None"
  "iteration (init_state ord G start) = 0"
  by (simp_all add: init_state_def)

lemma steps_sorted:
  assumes wf: "wf_graph G" and ord: "set_order ord G" and st: "start \<in> set (nodes G)"
  shows "\<exists>r. dijkstra_loop G goal (init_state ord G start) = Inr r \<and> sorted_wrt step_le r"
proof (rule dijkstra_loop_inv
    [where J = "\<lambda>s. sorted_wrt step_le (steps s) \<and>
                     (\<forall>st \<in> set (steps s). step_le st (terminal_step s))",
     OF wf basic_inv_init [OF ord st]])
  show "sorted_wrt step_le (steps (init_state ord G start)) \<and>
      (\<forall>st \<in> set (steps (init_state ord G start)).
         step_le st (terminal_step (init_state ord G start)))" by simp
next
  fix s :: "'a loop_state"
  assume "sorted_wrt step_le (steps s) \<and> (\<forall>st \<in> set (steps s). step_le st (terminal_step s))"
  then show "sorted_wrt step_le (steps s)" ..
next
  fix s :: "'a loop_state"
  assume "sorted_wrt step_le (steps s) \<and> (\<forall>st \<in> set (steps s). step_le st (terminal_step s))"
  then show "sorted_wrt step_le (steps s @ [terminal_step s])"
    by (simp add: sorted_wrt_append)
next
  fix s :: "'a loop_state" and c dc dst prv logs
  assume b: "basic_inv G s"
    and J: "sorted_wrt step_le (steps s) \<and> (\<forall>st \<in> set (steps s). step_le st (terminal_step s))"
    and c: "c \<in> set (open_set s)"
    and r: "relax_all c (closed_w s) (dist_w s, prev_w s, []) (adj G c) = Inr (dst, prv, logs)"
  let ?x = "\<lparr>iter = iteration s + 1, trying = logs, selected_node = Some c,
             closed_s = insert c (closed_w s), dist_s = dst, prev_s = prv\<rparr>"
  let ?s' = "advance s c dst prv logs"
  have tx: "step_le (terminal_step s) ?x"
    using wf b c r by (rule relax_step_le) simp_all
  have old: "step_le st ?x" if "st \<in> set (steps s)" for st
    using J that tx by (blast intro: step_le_trans)
  have xs: "step_le ?x (terminal_step ?s')" by (rule step_le_same) simp_all
  have sorted: "sorted_wrt step_le (steps ?s')"
    using J old by (simp add: sorted_wrt_append)
  have "\<forall>st \<in> set (steps ?s'). step_le st (terminal_step ?s')"
    using old xs by (auto intro: step_le_trans)
  with sorted
  show "(goal \<noteq> Some c \<longrightarrow> sorted_wrt step_le (steps ?s') \<and>
           (\<forall>st \<in> set (steps ?s'). step_le st (terminal_step ?s'))) \<and>
        (goal = Some c \<longrightarrow> sorted_wrt step_le (steps ?s'))" by blast
qed

text \<open>
  C7. In a step sequence produced by \<open>dijkstra_steps\<close>, for every node the distance recorded
  in a later step is at most the distance recorded in an earlier step, and once the node is
  in the closed set of a step, its distance is the same in every later step.
\<close>

theorem distances_monotone:
  assumes "wf_graph G" and "set_order ord G"
    and "dijkstra_steps ord G start goal = Inr r"
    and "k < l" and "l < length r" and "dist_s (r ! k) n = Some d"
  shows "\<exists>d'. dist_s (r ! l) n = Some d' \<and> d' \<le> d \<and> (n \<in> closed_s (r ! k) \<longrightarrow> d' = d)"
proof -
  from assms(3) have st: "start \<in> set (nodes G)"
    by (auto simp: dijkstra_steps_def split: if_splits)
  with steps_sorted [OF assms(1,2) st, of goal] assms(3)
  have "sorted_wrt step_le r" by (simp add: dijkstra_steps_eq)
  with assms(4,5) have "step_le (r ! k) (r ! l)" by (simp add: sorted_wrt_iff_nth_less)
  with assms(6) show ?thesis unfolding step_le_def by blast
qed

section \<open>Three concrete runs\<close>

lemmas run_defs =
  dijkstra_steps_def dijkstra_loop.simps loop_body_def py_min_def relax_def
  getitem_def dict_init_def get_weight_def the_steps_def fl_numeral fl_half fl_quarter

lemma sample_run:
  shows "dijkstra_steps [1, 2, 3, 4] sample_graph 1 None = Inr sample_steps"
    and "length sample_steps = 4"
    and "map selected_node sample_steps = [Some 1, Some 2, Some 3, Some 4]"
    and "map closed_s sample_steps = [{1}, {1, 2}, {1, 2, 3}, {1, 2, 3, 4}]"
    and "map (\<lambda>st. map (dist_s st) [1, 2, 3, 4]) sample_steps =
      [[Some (Finite 0), Some (Finite (3 / 2)), Some (Finite 2), Some Infinity],
       [Some (Finite 0), Some (Finite (3 / 2)), Some (Finite 2), Some (Finite (7 / 2))],
       [Some (Finite 0), Some (Finite (3 / 2)), Some (Finite 2), Some (Finite (13 / 4))],
       [Some (Finite 0), Some (Finite (3 / 2)), Some (Finite 2), Some (Finite (13 / 4))]]"
    and "map (\<lambda>st. map (prev_s st) [1, 2, 3, 4]) sample_steps =
      [[Some None, Some (Some 1), Some (Some 1), Some None],
       [Some None, Some (Some 1), Some (Some 1), Some (Some 2)],
       [Some None, Some (Some 1), Some (Some 1), Some (Some 3)],
       [Some None, Some (Some 1), Some (Some 1), Some (Some 3)]]"
    and "map att_j (trying (sample_steps ! 1)) = [1, 3, 4]"
    and "map temp_cost (trying (sample_steps ! 1)) = [Finite 3, Finite (5 / 2), Finite (7 / 2)]"
    and "map selected (trying (sample_steps ! 1)) = [''N/A'', ''N/A'', ''N/A'']"
    and "map deleted (trying (sample_steps ! 1)) = [''already_closed'', ''NA'', ''NA'']"
  by (simp_all add: sample_steps_def run_defs sample_graph_def insert_commute)

lemma chain_run:
  shows "dijkstra_steps [1, 2, 3, 4] chain_graph 1 None = Inr chain_steps"
    and "length chain_steps = 4"
    and "map selected_node chain_steps = [Some 1, Some 2, Some 3, None]"
    and "map closed_s chain_steps = [{1}, {1, 2}, {1, 2, 3}, {1, 2, 3}]"
    and "map (\<lambda>st. map (dist_s st) [1, 2, 3, 4]) chain_steps =
      [[Some (Finite 0), Some (Finite 1), Some Infinity, Some Infinity],
       [Some (Finite 0), Some (Finite 1), Some (Finite 2), Some Infinity],
       [Some (Finite 0), Some (Finite 1), Some (Finite 2), Some Infinity],
       [Some (Finite 0), Some (Finite 1), Some (Finite 2), Some Infinity]]"
  by (simp_all add: chain_steps_def run_defs chain_graph_def insert_commute)

lemma chain_goal_run:
  shows "dijkstra_steps [1, 2, 3, 4] chain_graph 1 (Some 2) = Inr chain_goal_steps"
    and "length chain_goal_steps = 2"
    and "map selected_node chain_goal_steps = [Some 1, Some 2]"
    and "map closed_s chain_goal_steps = [{1}, {1, 2}]"
    and "map (\<lambda>st. map (dist_s st) [1, 2, 3, 4]) chain_goal_steps =
      [[Some (Finite 0), Some (Finite 1), Some Infinity, Some Infinity],
       [Some (Finite 0), Some (Finite 1), Some (Finite 2), Some Infinity]]"
    and "map (\<lambda>st. map (prev_s st) [1, 2, 3, 4]) chain_goal_steps =
      [[Some None, Some (Some 1), Some None, Some None],
       [Some None, Some (Some 1), Some (Some 2), Some None]]"
  by (simp_all add: chain_goal_steps_def run_defs chain_graph_def insert_commute)

text \<open>Reading one entry of such a table.\<close>

lemma table_entry:
  "map (\<lambda>st. map (f st) ks) xs = tab \<Longrightarrow> i < length xs \<Longrightarrow> j < length ks \<Longrightarrow>
   f (xs ! i) (ks ! j) = tab ! i ! j"
  by auto

lemma column_entry: "map f xs = col \<Longrightarrow> i < length xs \<Longrightarrow> f (xs ! i) = col ! i"
  by auto

theorem distances_monotone_witness:
  "wf_graph sample_graph \<and> set_order [1, 2, 3, 4] sample_graph \<and>
   dijkstra_steps [1, 2, 3, 4] sample_graph 1 None = Inr sample_steps \<and>
   (1::nat) < 2 \<and> 2 < length sample_steps \<and>
   dist_s (sample_steps ! 1) 4 = Some (Finite (7 / 2)) \<and>
   (\<exists>d'. dist_s (sample_steps ! 2) 4 = Some d' \<and> d' \<le> Finite (7 / 2)) \<and>
   dist_s (sample_steps ! 1) 2 = Some (Finite (3 / 2)) \<and> 2 \<in> closed_s (sample_steps ! 1) \<and>
   dist_s (sample_steps ! 2) 2 = Some (Finite (3 / 2))"
proof -
  have k4: "dist_s (sample_steps ! 1) 4 = Some (Finite (7 / 2))"
    using table_entry [OF sample_run(5), of 1 3] by (simp add: sample_run(2))
  have k2: "dist_s (sample_steps ! 1) 2 = Some (Finite (3 / 2))"
    using table_entry [OF sample_run(5), of 1 1] by (simp add: sample_run(2))
  have c2: "2 \<in> closed_s (sample_steps ! 1)"
    using column_entry [OF sample_run(4), of 1] by (simp add: sample_run(2))
  have len: "2 < length sample_steps" by (simp add: sample_run(2))
  have a: "\<exists>d'. dist_s (sample_steps ! 2) 4 = Some d' \<and> d' \<le> Finite (7 / 2)"
    using distances_monotone [OF wf_sample_graph order_sample_graph sample_run(1) _ len k4]
    by auto
  have b: "dist_s (sample_steps ! 2) 2 = Some (Finite (3 / 2))"
    using distances_monotone [OF wf_sample_graph order_sample_graph sample_run(1) _ len k2] c2
    by auto
  from wf_sample_graph order_sample_graph sample_run(1) len k4 k2 c2 a b show ?thesis
    by simp
qed

section \<open>The terminal step\<close>

lemma terminal_run:
  assumes wf: "wf_graph G" and ord: "set_order ord G" and st: "start \<in> set (nodes G)"
  shows "\<exists>r. dijkstra_loop G goal (init_state ord G start) = Inr r \<and>
     ((\<forall>x \<in> set (butlast r). selected_node x \<noteq> None) \<and>
      (r \<noteq> [] \<and> selected_node (last r) = None \<longrightarrow>
         trying (last r) = [] \<and> butlast r \<noteq> [] \<and>
         closed_s (last r) = closed_s (last (butlast r)) \<and>
         dist_s (last r) = dist_s (last (butlast r)) \<and>
         prev_s (last r) = prev_s (last (butlast r))))"
    (is "\<exists>r. _ \<and> ?Q r")
proof (rule dijkstra_loop_inv
    [where Q = ?Q and J = "\<lambda>s. (\<forall>x \<in> set (steps s). selected_node x \<noteq> None) \<and>
       (steps s = [] \<longrightarrow> start \<in> set (open_set s) \<and>
          dist_w s = (dict_init (nodes G) Infinity)(start \<mapsto> Finite 0)) \<and>
       (steps s \<noteq> [] \<longrightarrow> closed_s (last (steps s)) = closed_w s \<and>
          dist_s (last (steps s)) = dist_w s \<and> prev_s (last (steps s)) = prev_w s)",
     OF wf basic_inv_init [OF ord st]])
  show "(\<forall>x \<in> set (steps (init_state ord G start)). selected_node x \<noteq> None) \<and>
    (steps (init_state ord G start) = [] \<longrightarrow>
       start \<in> set (open_set (init_state ord G start)) \<and>
       dist_w (init_state ord G start) = (dict_init (nodes G) Infinity)(start \<mapsto> Finite 0)) \<and>
    (steps (init_state ord G start) \<noteq> [] \<longrightarrow>
       closed_s (last (steps (init_state ord G start))) = closed_w (init_state ord G start) \<and>
       dist_s (last (steps (init_state ord G start))) = dist_w (init_state ord G start) \<and>
       prev_s (last (steps (init_state ord G start))) = prev_w (init_state ord G start))"
    using ord st by (simp add: set_order_def)
next
  fix s :: "'a loop_state"
  assume "(\<forall>x \<in> set (steps s). selected_node x \<noteq> None) \<and>
       (steps s = [] \<longrightarrow> start \<in> set (open_set s) \<and>
          dist_w s = (dict_init (nodes G) Infinity)(start \<mapsto> Finite 0)) \<and>
       (steps s \<noteq> [] \<longrightarrow> closed_s (last (steps s)) = closed_w s \<and>
          dist_s (last (steps s)) = dist_w s \<and> prev_s (last (steps s)) = prev_w s)"
  then have all: "\<forall>x \<in> set (steps s). selected_node x \<noteq> None" by blast
  then have "\<forall>x \<in> set (butlast (steps s)). selected_node x \<noteq> None"
    by (blast dest: in_set_butlastD)
  moreover have "steps s \<noteq> [] \<longrightarrow> selected_node (last (steps s)) \<noteq> None"
    using all by simp
  ultimately show "?Q (steps s)" by blast
next
  fix s :: "'a loop_state" and c d
  assume J: "(\<forall>x \<in> set (steps s). selected_node x \<noteq> None) \<and>
       (steps s = [] \<longrightarrow> start \<in> set (open_set s) \<and>
          dist_w s = (dict_init (nodes G) Infinity)(start \<mapsto> Finite 0)) \<and>
       (steps s \<noteq> [] \<longrightarrow> closed_s (last (steps s)) = closed_w s \<and>
          dist_s (last (steps s)) = dist_w s \<and> prev_s (last (steps s)) = prev_w s)"
    and c: "dist_w s c = Some d" and inf: "isinf d"
    and least: "\<forall>x \<in> set (open_set s). \<forall>dx. dist_w s x = Some dx \<longrightarrow> d \<le> dx"
  have ne: "steps s \<noteq> []"
  proof
    assume "steps s = []"
    with J have o: "start \<in> set (open_set s)"
      and i: "dist_w s = (dict_init (nodes G) Infinity)(start \<mapsto> Finite 0)" by simp_all
    with least have "d \<le> Finite 0" by simp
    moreover from c i have "d = Finite 0 \<or> d = Infinity"
      by (auto simp: dict_init_def split: if_splits)
    ultimately show False using inf by auto
  qed
  with J show "?Q (steps s @ [terminal_step s])" by simp
next
  fix s :: "'a loop_state" and c dc dst prv logs
  assume J: "(\<forall>x \<in> set (steps s). selected_node x \<noteq> None) \<and>
       (steps s = [] \<longrightarrow> start \<in> set (open_set s) \<and>
          dist_w s = (dict_init (nodes G) Infinity)(start \<mapsto> Finite 0)) \<and>
       (steps s \<noteq> [] \<longrightarrow> closed_s (last (steps s)) = closed_w s \<and>
          dist_s (last (steps s)) = dist_w s \<and> prev_s (last (steps s)) = prev_w s)"
  let ?s' = "advance s c dst prv logs"
  from J have "(\<forall>x \<in> set (steps ?s'). selected_node x \<noteq> None) \<and>
       (steps ?s' = [] \<longrightarrow> start \<in> set (open_set ?s') \<and>
          dist_w ?s' = (dict_init (nodes G) Infinity)(start \<mapsto> Finite 0)) \<and>
       (steps ?s' \<noteq> [] \<longrightarrow> closed_s (last (steps ?s')) = closed_w ?s' \<and>
          dist_s (last (steps ?s')) = dist_w ?s' \<and> prev_s (last (steps ?s')) = prev_w ?s')"
    by simp
  moreover from J have "?Q (steps ?s')" by simp
  ultimately show "(goal \<noteq> Some c \<longrightarrow>
       (\<forall>x \<in> set (steps ?s'). selected_node x \<noteq> None) \<and>
       (steps ?s' = [] \<longrightarrow> start \<in> set (open_set ?s') \<and>
          dist_w ?s' = (dict_init (nodes G) Infinity)(start \<mapsto> Finite 0)) \<and>
       (steps ?s' \<noteq> [] \<longrightarrow> closed_s (last (steps ?s')) = closed_w ?s' \<and>
          dist_s (last (steps ?s')) = dist_w ?s' \<and> prev_s (last (steps ?s')) = prev_w ?s')) \<and>
     (goal = Some c \<longrightarrow> ?Q (steps ?s'))" by blast
qed

lemma loop_stops_at_infinity:
  assumes "open_set s \<noteq> []" and "py_min (dist_w s) (open_set s) = Inr c"
    and "dist_w s c = Some d" and "isinf d"
  shows "dijkstra_loop G goal s = Inr (steps s @ [terminal_step s])"
  using assms by (subst dijkstra_loop.simps) (simp add: loop_body_def terminal_step_def)

text \<open>
  C5. Whenever the node selected from the open set has an infinite distance, the loop
  returns at once with exactly one more step, which has no attempts, no selected node and
  the current closed set, distances and predecessors. In a sequence produced by
  \<open>dijkstra_steps\<close>, a step without a selected node is therefore the last one; it is never
  the first, it has no attempts, and its closed set, distances and predecessors are those
  of the step before it.
\<close>

theorem terminal_step_last:
  "(open_set s \<noteq> [] \<and> py_min (dist_w s) (open_set s) = Inr c \<and>
    dist_w s c = Some d \<and> isinf d \<longrightarrow>
      dijkstra_loop G goal s =
        Inr (steps s @
          [\<lparr>iter = iteration s + 1, trying = [], selected_node = None,
            closed_s = closed_w s, dist_s = dist_w s, prev_s = prev_w s\<rparr>])) \<and>
   (wf_graph G \<and> set_order ord G \<and> dijkstra_steps ord G start goal = Inr r \<and>
    k < length r \<and> selected_node (r ! k) = None \<longrightarrow>
      k + 1 = length r \<and> 0 < k \<and> trying (r ! k) = [] \<and>
      closed_s (r ! k) = closed_s (r ! (k - 1)) \<and>
      dist_s (r ! k) = dist_s (r ! (k - 1)) \<and>
      prev_s (r ! k) = prev_s (r ! (k - 1)))"
proof (intro conjI impI)
  assume "open_set s \<noteq> [] \<and> py_min (dist_w s) (open_set s) = Inr c \<and>
    dist_w s c = Some d \<and> isinf d"
  then show "dijkstra_loop G goal s =
        Inr (steps s @
          [\<lparr>iter = iteration s + 1, trying = [], selected_node = None,
            closed_s = closed_w s, dist_s = dist_w s, prev_s = prev_w s\<rparr>])"
    using loop_stops_at_infinity [of s c d G goal] by (simp add: terminal_step_def)
next
  assume a: "wf_graph G \<and> set_order ord G \<and> dijkstra_steps ord G start goal = Inr r \<and>
    k < length r \<and> selected_node (r ! k) = None"
  then have run: "dijkstra_steps ord G start goal = Inr r" and k: "k < length r"
    and sel: "selected_node (r ! k) = None" by simp_all
  from run have st: "start \<in> set (nodes G)"
    by (auto simp: dijkstra_steps_def split: if_splits)
  from a st terminal_run [of G ord start goal] run
  have bl: "\<forall>x \<in> set (butlast r). selected_node x \<noteq> None"
    and la: "r \<noteq> [] \<and> selected_node (last r) = None \<longrightarrow>
         trying (last r) = [] \<and> butlast r \<noteq> [] \<and>
         closed_s (last r) = closed_s (last (butlast r)) \<and>
         dist_s (last r) = dist_s (last (butlast r)) \<and>
         prev_s (last r) = prev_s (last (butlast r))"
    by (simp_all add: dijkstra_steps_eq)
  have kl: "k + 1 = length r"
  proof (rule ccontr)
    assume "k + 1 \<noteq> length r"
    with k have "k < length (butlast r)" by simp
    then have "butlast r ! k \<in> set (butlast r)" by (rule nth_mem)
    moreover from \<open>k < length (butlast r)\<close> have "butlast r ! k = r ! k"
      by (simp add: nth_butlast)
    ultimately show False using bl sel by auto
  qed
  from k have ne: "r \<noteq> []" by auto
  from kl have k1: "length r - 1 = k" by arith
  with ne have lk: "last r = r ! k" by (simp add: last_conv_nth)
  with la ne sel have t: "trying (last r) = []" and bne: "butlast r \<noteq> []"
    and c: "closed_s (last r) = closed_s (last (butlast r))"
    and d: "dist_s (last r) = dist_s (last (butlast r))"
    and p: "prev_s (last r) = prev_s (last (butlast r))" by simp_all
  from bne have "length (butlast r) \<noteq> 0" by (simp del: length_butlast)
  then have "length r - 1 \<noteq> 0" by simp
  with kl have k0: "0 < k" by arith
  from kl k0 have k2: "length (butlast r) - 1 = k - 1" "k - 1 < length (butlast r)"
    by simp_all
  with bne have "last (butlast r) = r ! (k - 1)"
    by (simp add: last_conv_nth nth_butlast del: length_butlast)
  with kl k0 t c d p lk
  show "k + 1 = length r" "0 < k" "trying (r ! k) = []"
    "closed_s (r ! k) = closed_s (r ! (k - 1))"
    "dist_s (r ! k) = dist_s (r ! (k - 1))"
    "prev_s (r ! k) = prev_s (r ! (k - 1))" by simp_all
qed

theorem terminal_step_last_witness:
  "open_set stuck_state \<noteq> [] \<and>
   py_min (dist_w stuck_state) (open_set stuck_state) = Inr 4 \<and>
   dist_w stuck_state 4 = Some Infinity \<and> isinf Infinity \<and>
   dijkstra_loop chain_graph None stuck_state =
     Inr [\<lparr>iter = 2, trying = [], selected_node = None, closed_s = {1},
           dist_s = dist_w stuck_state, prev_s = prev_w stuck_state\<rparr>] \<and>
   wf_graph chain_graph \<and> set_order [1, 2, 3, 4] chain_graph \<and>
   dijkstra_steps [1, 2, 3, 4] chain_graph 1 None = Inr chain_steps \<and>
   3 < length chain_steps \<and> selected_node (chain_steps ! 3) = None \<and>
   3 + 1 = length chain_steps \<and> trying (chain_steps ! 3) = [] \<and>
   closed_s (chain_steps ! 3) = closed_s (chain_steps ! 2) \<and>
   dist_s (chain_steps ! 3) = dist_s (chain_steps ! 2) \<and>
   prev_s (chain_steps ! 3) = prev_s (chain_steps ! 2)"
proof -
  have h: "open_set stuck_state \<noteq> []"
    "py_min (dist_w stuck_state) (open_set stuck_state) = Inr 4"
    "dist_w stuck_state 4 = Some Infinity"
    by (simp_all add: stuck_state_def py_min_def)
  have f: "steps stuck_state = []" "iteration stuck_state = 1" "closed_w stuck_state = {1}"
    by (simp_all add: stuck_state_def)
  have len: "3 < length chain_steps" by (simp add: chain_run(2))
  have sel: "selected_node (chain_steps ! 3) = None"
    using column_entry [OF chain_run(3), of 3] by (simp add: chain_run(2))
  from terminal_step_last [of stuck_state 4 Infinity chain_graph None]
  have a: "dijkstra_loop chain_graph None stuck_state =
     Inr [\<lparr>iter = 2, trying = [], selected_node = None, closed_s = {1},
           dist_s = dist_w stuck_state, prev_s = prev_w stuck_state\<rparr>]"
    using h f by simp
  from terminal_step_last [where G = chain_graph and ord = "[1, 2, 3, 4]" and start = 1
      and goal = None and r = chain_steps and k = 3]
    wf_chain_graph order_chain_graph chain_run(1) len sel
  have b: "3 + 1 = length chain_steps \<and> trying (chain_steps ! 3) = [] \<and>
     closed_s (chain_steps ! 3) = closed_s (chain_steps ! 2) \<and>
     dist_s (chain_steps ! 3) = dist_s (chain_steps ! 2) \<and>
     prev_s (chain_steps ! 3) = prev_s (chain_steps ! 2)" by simp
  from h a wf_chain_graph order_chain_graph chain_run(1) len sel b show ?thesis by simp
qed

section \<open>Stopping at the goal\<close>

text \<open>What a relaxation loop changes: only entries of open neighbours, and the predecessor
  together with the distance.\<close>

lemma relax_all_changes:
  assumes r: "relax_all c cl (dst, prv, logs) es = Inr (dst', prv', logs')"
    and c: "c \<in> dom dst" and sub: "fst ` set es \<subseteq> dom dst"
  shows "\<forall>n. (prv' n = prv n \<and> dst' n = dst n) \<or>
             (prv' n = Some (Some c) \<and> n \<notin> cl \<and> n \<in> fst ` set es)"
proof -
  let ?P = "\<lambda>(ps :: ('a \<times> real option) list) (d :: 'a \<rightharpoonup> cost)
              (p :: 'a \<rightharpoonup> 'a option) (l :: 'a attempt list).
      \<forall>n. (p n = prv n \<and> d n = dst n) \<or>
          (p n = Some (Some c) \<and> n \<notin> cl \<and> n \<in> fst ` set ps)"
  have "\<exists>dst' prv' logs'. relax_all c cl (dst, prv, logs) es = Inr (dst', prv', logs') \<and>
          ?P es dst' prv' logs' \<and> dom dst' = dom dst"
  proof (rule relax_all_rule [where P = ?P, OF _ c sub])
    show "?P [] dst prv logs" by simp
  next
    fix ps and e :: "'a \<times> real option" and rest d and p :: "'a \<rightharpoonup> 'a option"
      and l :: "'a attempt list" and dc dv
    assume P: "?P ps d p l"
    show "?P (ps @ [e])
       (if improves cl dc dv e then d(fst e \<mapsto> cost_add dc (get_weight (snd e))) else d)
       (if improves cl dc dv e then p(fst e \<mapsto> Some c) else p)
       (l @ [attempt_of c cl dc e])"
    proof (cases "improves cl dc dv e")
      case False
      with P show ?thesis by auto
    next
      case True
      then have "fst e \<notin> cl" by (simp add: improves_def)
      with P True show ?thesis by auto
    qed
  qed
  with r show ?thesis by simp
qed

text \<open>The facts about the steps so far that hold whatever the goal is.\<close>

lemma count_advance:
  assumes wf: "wf_graph G" and b: "basic_inv G s" and c: "c \<in> set (open_set s)"
    and r: "relax_all c (closed_w s) (dist_w s, prev_w s, []) (adj G c) = Inr (dst, prv, logs)"
    and J1: "\<forall>y \<in> set (steps s). selected_node y \<noteq> None \<and> closed_s y \<subseteq> closed_w s"
    and J3: "length (steps s) = card (closed_w s)"
    and J4: "\<forall>k < length (steps s). card (closed_s (steps s ! k)) = k + 1"
  shows "\<forall>y \<in> set (steps (advance s c dst prv logs)).
           selected_node y \<noteq> None \<and> closed_s y \<subseteq> closed_w (advance s c dst prv logs)"
    and "length (steps (advance s c dst prv logs)) = card (closed_w (advance s c dst prv logs))"
    and "\<forall>k < length (steps (advance s c dst prv logs)).
           card (closed_s (steps (advance s c dst prv logs) ! k)) = k + 1"
proof -
  from b have fin: "finite (closed_w s)"
    by (metis basic_inv_def finite_Un finite_set)
  from b c have ncl: "c \<notin> closed_w s" by (auto simp: basic_inv_def)
  from J1 show "\<forall>y \<in> set (steps (advance s c dst prv logs)).
           selected_node y \<noteq> None \<and> closed_s y \<subseteq> closed_w (advance s c dst prv logs)"
    by auto
  from fin ncl J3
  show l: "length (steps (advance s c dst prv logs)) = card (closed_w (advance s c dst prv logs))"
    by simp
  show "\<forall>k < length (steps (advance s c dst prv logs)).
           card (closed_s (steps (advance s c dst prv logs) ! k)) = k + 1"
  proof (intro allI impI)
    fix k assume "k < length (steps (advance s c dst prv logs))"
    then have "k < length (steps s) \<or> k = length (steps s)" by auto
    then show "card (closed_s (steps (advance s c dst prv logs) ! k)) = k + 1"
    proof
      assume "k < length (steps s)"
      with J4 show ?thesis by (simp add: nth_append)
    next
      assume "k = length (steps s)"
      with fin ncl J3 show ?thesis by (simp add: nth_append)
    qed
  qed
qed

lemma count_inv_advance:
  assumes "wf_graph G" and "basic_inv G s" and "c \<in> set (open_set s)"
    and "relax_all c (closed_w s) (dist_w s, prev_w s, []) (adj G c) = Inr (dst, prv, logs)"
    and "count_inv s"
  shows "count_inv (advance s c dst prv logs)"
  unfolding count_inv_def
  using count_advance [OF assms(1-4)] assms(5) unfolding count_inv_def by blast

lemma count_inv_init: "count_inv (init_state ord G start)"
  by (simp add: count_inv_def)

lemma goal_run:
  assumes wf: "wf_graph G" and ord: "set_order ord G" and st: "start \<in> set (nodes G)"
  shows "\<exists>r. dijkstra_loop G (Some g) (init_state ord G start) = Inr r \<and>
     ((\<exists>x \<in> set r. g \<in> closed_s x) \<longrightarrow>
        r \<noteq> [] \<and> selected_node (last r) = Some g \<and>
        (\<forall>y \<in> set (butlast r). g \<notin> closed_s y) \<and>
        (\<forall>y \<in> set r. selected_node y \<noteq> None) \<and>
        (\<forall>k < length r. card (closed_s (r ! k)) = k + 1) \<and>
        length r = card (closed_s (last r)) \<and>
        closed_s (last r) \<subseteq> set (nodes G))"
    (is "\<exists>r. _ \<and> ?Q r")
proof (rule dijkstra_loop_inv
    [where Q = ?Q and J = "\<lambda>s. count_inv s \<and> g \<notin> closed_w s",
     OF wf basic_inv_init [OF ord st]])
  show "count_inv (init_state ord G start) \<and> g \<notin> closed_w (init_state ord G start)"
    using count_inv_init by simp
next
  fix s :: "'a loop_state"
  assume "count_inv s \<and> g \<notin> closed_w s"
  then have "\<not> (\<exists>x \<in> set (steps s). g \<in> closed_s x)"
    by (auto simp: count_inv_def)
  then show "?Q (steps s)" by blast
next
  fix s :: "'a loop_state"
  assume "count_inv s \<and> g \<notin> closed_w s"
  then have "\<not> (\<exists>x \<in> set (steps s @ [terminal_step s]). g \<in> closed_s x)"
    by (auto simp: count_inv_def)
  then show "?Q (steps s @ [terminal_step s])" by blast
next
  fix s :: "'a loop_state" and c dc dst prv logs
  assume b: "basic_inv G s" and J: "count_inv s \<and> g \<notin> closed_w s"
    and c: "c \<in> set (open_set s)"
    and r: "relax_all c (closed_w s) (dist_w s, prev_w s, []) (adj G c) = Inr (dst, prv, logs)"
    and b': "basic_inv G (advance s c dst prv logs)"
  let ?s' = "advance s c dst prv logs"
  from J have ci: "count_inv s" and g: "g \<notin> closed_w s" by simp_all
  have ci': "count_inv ?s'" using wf b c r ci by (rule count_inv_advance)
  have cont: "count_inv ?s' \<and> g \<notin> closed_w ?s'" if "Some g \<noteq> Some c"
    using ci' g that by simp
  have stop: "?Q (steps ?s')" if gc: "Some g = Some c"
  proof (intro impI conjI)
    show "steps ?s' \<noteq> []" by simp
    show "selected_node (last (steps ?s')) = Some g" using gc by simp
    show "\<forall>y \<in> set (butlast (steps ?s')). g \<notin> closed_s y"
      using ci g by (auto simp: count_inv_def)
    show "\<forall>y \<in> set (steps ?s'). selected_node y \<noteq> None"
      using ci' by (simp add: count_inv_def)
    show "\<forall>k < length (steps ?s'). card (closed_s (steps ?s' ! k)) = k + 1"
      using ci' by (simp add: count_inv_def)
    have "length (steps ?s') = card (closed_w ?s')"
      using ci' by (simp add: count_inv_def)
    then show "length (steps ?s') = card (closed_s (last (steps ?s')))" by simp
    show "closed_s (last (steps ?s')) \<subseteq> set (nodes G)"
      using b' by (auto simp: basic_inv_def)
  qed
  from cont stop
  show "(Some g \<noteq> Some c \<longrightarrow> count_inv ?s' \<and> g \<notin> closed_w ?s') \<and>
        (Some g = Some c \<longrightarrow> ?Q (steps ?s'))" by blast
qed

section \<open>The log of attempts\<close>

lemma attempt_ok_after:
  assumes ok: "attempt_ok c cl before after e a"
    and e: "after' (fst e) = after (fst e)"
    and cc: "after' c = after c \<or> after c = before c"
  shows "attempt_ok c cl before after' e a"
proof -
  from ok have f: "att_i a = c" "att_j a = fst e" "link_cost a = get_weight (snd e)"
      "temp_cost a = cost_add (perm_cost a) (link_cost a)" "selected a = ''N/A''"
    and p: "Some (perm_cost a) = before c \<or> Some (perm_cost a) = after c"
    and u: "if fst e \<in> cl
      then deleted a = ''already_closed'' \<and> after (fst e) = before (fst e)
      else deleted a = ''NA'' \<and>
        (\<exists>dv. before (fst e) = Some dv \<and>
              after (fst e) = Some (if temp_cost a < dv then temp_cost a else dv))"
    unfolding attempt_ok_def by blast+
  from p cc have p': "Some (perm_cost a) = before c \<or> Some (perm_cost a) = after' c"
    by auto
  from u have u': "if fst e \<in> cl
      then deleted a = ''already_closed'' \<and> after' (fst e) = before (fst e)
      else deleted a = ''NA'' \<and>
        (\<exists>dv. before (fst e) = Some dv \<and>
              after' (fst e) = Some (if temp_cost a < dv then temp_cost a else dv))"
    unfolding e .
  from f p' u' show ?thesis unfolding attempt_ok_def by blast
qed

lemma attempt_ok_attempt_of:
  assumes b: "before (fst e) = Some dv" and dc: "d c = Some dc"
    and cc: "d c = before c \<or> fst e \<noteq> c"
    and dv: "d (fst e) = Some dv"
  shows "attempt_ok c cl before
     (if improves cl dc dv e then d(fst e \<mapsto> cost_add dc (get_weight (snd e))) else d)
     e (attempt_of c cl dc e)"
proof (cases "fst e \<in> cl")
  case True
  then have "\<not> improves cl dc dv e" by (simp add: improves_def)
  with True b dc dv show ?thesis by (simp add: attempt_ok_def attempt_of_def)
next
  case False
  then have i: "improves cl dc dv e \<longleftrightarrow> cost_add dc (get_weight (snd e)) < dv"
    by (simp add: improves_def)
  show ?thesis
  proof (cases "cost_add dc (get_weight (snd e)) < dv")
    case True
    with i False b dc cc show ?thesis by (auto simp: attempt_ok_def attempt_of_def)
  next
    case no: False
    with i False b dc dv show ?thesis by (simp add: attempt_ok_def attempt_of_def)
  qed
qed

lemma relax_all_log:
  assumes r: "relax_all c cl (dst, prv, []) es = Inr (dst', prv', logs')"
    and c: "c \<in> dom dst" and sub: "fst ` set es \<subseteq> dom dst"
    and dis: "distinct (map fst es)"
  shows "list_all2 (attempt_ok c cl dst dst') es logs'"
    and "\<forall>n. n \<notin> fst ` set es \<longrightarrow> dst' n = dst n"
proof -
  let ?P = "\<lambda>(ps :: ('a \<times> real option) list) (d :: 'a \<rightharpoonup> cost)
              (p :: 'a \<rightharpoonup> 'a option) (l :: 'a attempt list).
      list_all2 (attempt_ok c cl dst d) ps l \<and> (\<forall>n. n \<notin> fst ` set ps \<longrightarrow> d n = dst n)"
  have "\<exists>dst' prv' logs'. relax_all c cl (dst, prv, []) es = Inr (dst', prv', logs') \<and>
          ?P es dst' prv' logs' \<and> dom dst' = dom dst"
  proof (rule relax_all_rule [where P = ?P, OF _ c sub])
    show "?P [] dst prv []" by simp
  next
    fix ps and e :: "'a \<times> real option" and rest d and p :: "'a \<rightharpoonup> 'a option"
      and l :: "'a attempt list" and dc dv
    assume es: "es = ps @ e # rest" and P: "?P ps d p l"
      and dc: "d c = Some dc" and dv: "d (fst e) = Some dv"
    let ?d = "if improves cl dc dv e
      then d(fst e \<mapsto> cost_add dc (get_weight (snd e))) else d"
    from dis es have new: "fst e \<notin> fst ` set ps" by auto
    with P dv have dv0: "dst (fst e) = Some dv" by simp
    have same: "?d n = d n" if "n \<noteq> fst e" for n using that by simp
    have cc: "?d c = d c \<or> d c = dst c"
    proof (cases "fst e = c")
      case True
      with new P show ?thesis by simp
    next
      case False
      then show ?thesis by simp
    qed
    have old: "list_all2 (attempt_ok c cl dst ?d) ps l"
    proof (rule list.rel_mono_strong)
      from P show "list_all2 (attempt_ok c cl dst d) ps l" ..
    next
      fix x a assume x: "x \<in> set ps" and "a \<in> set l" and ok: "attempt_ok c cl dst d x a"
      from x new have "fst x \<noteq> fst e" by (metis imageI)
      then have "?d (fst x) = d (fst x)" by (rule same)
      with ok show "attempt_ok c cl dst ?d x a" using cc by (rule attempt_ok_after)
    qed
    have "d c = dst c \<or> fst e \<noteq> c" using new P by auto
    with dv0 dc dv have this_one: "attempt_ok c cl dst ?d e (attempt_of c cl dc e)"
      by (intro attempt_ok_attempt_of)
    have rest_same: "\<forall>n. n \<notin> fst ` set (ps @ [e]) \<longrightarrow> ?d n = dst n"
      using P by simp
    from old this_one rest_same
    show "?P (ps @ [e]) ?d
       (if improves cl dc dv e then p(fst e \<mapsto> Some c) else p)
       (l @ [attempt_of c cl dc e])"
      by (simp add: list_all2_appendI)
  qed
  with r show "list_all2 (attempt_ok c cl dst dst') es logs'"
    and "\<forall>n. n \<notin> fst ` set es \<longrightarrow> dst' n = dst n" by simp_all
qed

lemma dist_before_append:
  "k \<le> length r \<Longrightarrow> dist_before G start (r @ [x]) k = dist_before G start r k"
  by (auto simp: dist_before_def nth_append)

lemma attempts_logged_append:
  "k < length r \<Longrightarrow> attempts_logged G start (r @ [x]) k = attempts_logged G start r k"
  by (simp add: attempts_logged_def dist_before_append nth_append cong: option.case_cong)

lemma attempts_logged_snoc:
  assumes "\<forall>k < length r. attempts_logged G start r k"
    and "attempts_logged G start (r @ [x]) (length r)"
  shows "\<forall>k < length (r @ [x]). attempts_logged G start (r @ [x]) k"
proof (intro allI impI)
  fix k assume "k < length (r @ [x])"
  then have "k < length r \<or> k = length r" by auto
  with assms show "attempts_logged G start (r @ [x]) k"
    by (auto simp: attempts_logged_append)
qed

lemma attempts_run:
  assumes wf: "wf_graph G" and ord: "set_order ord G" and st: "start \<in> set (nodes G)"
  shows "\<exists>r. dijkstra_loop G goal (init_state ord G start) = Inr r \<and>
           (\<forall>k < length r. attempts_logged G start r k)"
proof (rule dijkstra_loop_inv
    [where J = "\<lambda>s. (\<forall>k < length (steps s). attempts_logged G start (steps s) k) \<and>
                     dist_w s = dist_before G start (steps s) (length (steps s))",
     OF wf basic_inv_init [OF ord st]])
  show "(\<forall>k < length (steps (init_state ord G start)).
           attempts_logged G start (steps (init_state ord G start)) k) \<and>
        dist_w (init_state ord G start) =
          dist_before G start (steps (init_state ord G start))
            (length (steps (init_state ord G start)))"
    by (simp add: dist_before_def)
next
  fix s :: "'a loop_state"
  assume "(\<forall>k < length (steps s). attempts_logged G start (steps s) k) \<and>
     dist_w s = dist_before G start (steps s) (length (steps s))"
  then show "\<forall>k < length (steps s). attempts_logged G start (steps s) k" ..
next
  fix s :: "'a loop_state"
  assume J: "(\<forall>k < length (steps s). attempts_logged G start (steps s) k) \<and>
     dist_w s = dist_before G start (steps s) (length (steps s))"
  then have "attempts_logged G start (steps s @ [terminal_step s]) (length (steps s))"
    by (simp add: attempts_logged_def dist_before_append)
  with J show "\<forall>k < length (steps s @ [terminal_step s]).
     attempts_logged G start (steps s @ [terminal_step s]) k"
    by (intro attempts_logged_snoc) simp_all
next
  fix s :: "'a loop_state" and c dc dst prv logs
  assume b: "basic_inv G s"
    and J: "(\<forall>k < length (steps s). attempts_logged G start (steps s) k) \<and>
     dist_w s = dist_before G start (steps s) (length (steps s))"
    and c: "c \<in> set (open_set s)"
    and r: "relax_all c (closed_w s) (dist_w s, prev_w s, []) (adj G c) = Inr (dst, prv, logs)"
  let ?x = "\<lparr>iter = iteration s + 1, trying = logs, selected_node = Some c,
             closed_s = insert c (closed_w s), dist_s = dst, prev_s = prv\<rparr>"
  let ?s' = "advance s c dst prv logs"
  note nb = neighbours_in_dom [OF wf b c]
  from wf nb(3) have dis: "distinct (map fst (adj G c))" by (simp add: wf_graph_def)
  note log = relax_all_log [OF r nb(1,2) dis]
  from nb(4) have cl: "insert c (closed_w s) - {c} = closed_w s" by auto
  have new: "attempts_logged G start (steps s @ [?x]) (length (steps s))"
    using log J by (simp add: attempts_logged_def dist_before_append cl)
  with J have all: "\<forall>k < length (steps s @ [?x]). attempts_logged G start (steps s @ [?x]) k"
    by (intro attempts_logged_snoc) simp_all
  have snap: "dist_w ?s' = dist_before G start (steps ?s') (length (steps ?s'))"
    by (simp add: dist_before_def)
  from all snap
  show "(goal \<noteq> Some c \<longrightarrow>
          (\<forall>k < length (steps ?s'). attempts_logged G start (steps ?s') k) \<and>
          dist_w ?s' = dist_before G start (steps ?s') (length (steps ?s'))) \<and>
        (goal = Some c \<longrightarrow> (\<forall>k < length (steps ?s'). attempts_logged G start (steps ?s') k))"
    by simp
qed

lemma attempts_of_run:
  assumes "wf_graph G" and "set_order ord G"
    and "dijkstra_steps ord G start goal = Inr r" and "k < length r"
  shows "attempts_logged G start r k"
proof -
  from assms(3) have st: "start \<in> set (nodes G)"
    by (auto simp: dijkstra_steps_def split: if_splits)
  with attempts_run [OF assms(1,2) st, of goal] assms(3,4)
  show ?thesis by (simp add: dijkstra_steps_eq)
qed

lemma line_goal_run:
  shows "dijkstra_steps [1, 2, 3, 4] line_graph 1 (Some 2) = Inr line_goal_steps"
    and "length line_goal_steps = 2"
    and "map selected_node line_goal_steps = [Some 1, Some 2]"
    and "map closed_s line_goal_steps = [{1}, {1, 2}]"
    and "map (\<lambda>st. map (dist_s st) [1, 2, 3, 4]) line_goal_steps =
      [[Some (Finite 0), Some (Finite 1), Some Infinity, Some Infinity],
       [Some (Finite 0), Some (Finite 1), Some (Finite 3), Some Infinity]]"
    and "map (\<lambda>st. map att_j (trying st)) line_goal_steps = [[2], [3]]"
  by (simp_all add: line_goal_steps_def run_defs line_graph_def insert_commute)

lemma wf_line_graph: "wf_graph line_graph"
  by (simp add: wf_graph_def line_graph_def)

lemma order_line_graph: "set_order [1, 2, 3, 4] line_graph"
  by (simp add: set_order_def line_graph_def)

lemma sample_improved:
  shows "improved_at sample_graph 1 sample_steps 1 4"
    and "\<not> improved_at sample_graph 1 sample_steps 1 3"
  by (simp_all add: improved_at_def dist_before_def sample_steps_def run_defs sample_graph_def
      insert_commute)

text \<open>
  C4, as the code has it. In every step produced by \<open>dijkstra_steps\<close> that selected a node
  \<open>u\<close>, the log holds exactly one entry per neighbour entry of \<open>u\<close>, in the order of the
  adjacency. Each entry records \<open>u\<close>, the neighbour, the weight, the distance of \<open>u\<close>, the
  candidate distance (that distance plus the weight), the constant \<^verbatim>\<open>"N/A"\<close> under
  \<^verbatim>\<open>"selected"\<close>, and under \<^verbatim>\<open>"deleted"\<close> one of two values: \<^verbatim>\<open>"already_closed"\<close> for a
  neighbour closed before the step, whose distance the step leaves alone, and \<^verbatim>\<open>"NA"\<close>
  for any other neighbour. For such a neighbour the distance recorded by the step is the
  candidate if the candidate is strictly less than the distance before the step, and the
  distance before the step otherwise; which of the two happened is not among the recorded
  values. The step changes no other distance, and a step that selected no node logs nothing
  and changes nothing.
\<close>

theorem attempts_recorded:
  assumes "wf_graph G" and "set_order ord G"
    and "dijkstra_steps ord G start goal = Inr r" and "k < length r"
  shows "(\<forall>u. selected_node (r ! k) = Some u \<longrightarrow>
            list_all2 (attempt_ok u (closed_s (r ! k) - {u}) (dist_before G start r k)
                         (dist_s (r ! k)))
              (adj G u) (trying (r ! k)) \<and>
            (\<forall>n. n \<notin> fst ` set (adj G u) \<longrightarrow>
               dist_s (r ! k) n = dist_before G start r k n)) \<and>
         (selected_node (r ! k) = None \<longrightarrow>
            trying (r ! k) = [] \<and> dist_s (r ! k) = dist_before G start r k)"
proof -
  have "attempts_logged G start r k" using assms by (rule attempts_of_run)
  then show ?thesis unfolding attempts_logged_def by (simp split: option.splits)
qed

theorem attempts_recorded_witness:
  "wf_graph sample_graph \<and> set_order [1, 2, 3, 4] sample_graph \<and>
   dijkstra_steps [1, 2, 3, 4] sample_graph 1 None = Inr sample_steps \<and>
   1 < length sample_steps \<and> selected_node (sample_steps ! 1) = Some 2 \<and>
   list_all2
     (attempt_ok 2 (closed_s (sample_steps ! 1) - {2}) (dist_before sample_graph 1 sample_steps 1)
        (dist_s (sample_steps ! 1)))
     (adj sample_graph 2) (trying (sample_steps ! 1)) \<and>
   adj sample_graph 2 = [(1, Some (3 / 2)), (3, Some 1), (4, Some 2)] \<and>
   map att_j (trying (sample_steps ! 1)) = [1, 3, 4] \<and>
   map deleted (trying (sample_steps ! 1)) = [''already_closed'', ''NA'', ''NA'']"
proof -
  have len: "1 < length sample_steps" by (simp add: sample_run(2))
  have sel: "selected_node (sample_steps ! 1) = Some 2"
    using column_entry [OF sample_run(3), of 1] by (simp add: sample_run(2))
  have adj2: "adj sample_graph 2 = [(1, Some (3 / 2)), (3, Some 1), (4, Some 2)]"
    by (simp add: sample_graph_def)
  from attempts_recorded [OF wf_sample_graph order_sample_graph sample_run(1) len] sel
  have "list_all2
     (attempt_ok 2 (closed_s (sample_steps ! 1) - {2}) (dist_before sample_graph 1 sample_steps 1)
        (dist_s (sample_steps ! 1)))
     (adj sample_graph 2) (trying (sample_steps ! 1))" by blast
  with wf_sample_graph order_sample_graph sample_run(1) len sel adj2
    sample_run(7) sample_run(10)
  show ?thesis by blast
qed

text \<open>
  Against C4 as stated: in the second step of the run on the sample graph, the attempts on
  the neighbours 3 and 4 of the selected node 2 carry the same values under \<^verbatim>\<open>"selected"\<close>
  and \<^verbatim>\<open>"deleted"\<close>, although node 4 is improved by the step and node 3 is not.
\<close>

theorem attempt_outcome_not_recorded:
  "dijkstra_steps [1, 2, 3, 4] sample_graph 1 None = Inr sample_steps \<and>
   selected_node (sample_steps ! 1) = Some 2 \<and>
   att_j (trying (sample_steps ! 1) ! 1) = 3 \<and>
   att_j (trying (sample_steps ! 1) ! 2) = 4 \<and>
   selected (trying (sample_steps ! 1) ! 1) = selected (trying (sample_steps ! 1) ! 2) \<and>
   deleted (trying (sample_steps ! 1) ! 1) = deleted (trying (sample_steps ! 1) ! 2) \<and>
   \<not> improved_at sample_graph 1 sample_steps 1 3 \<and>
   improved_at sample_graph 1 sample_steps 1 4"
proof -
  have len: "length (trying (sample_steps ! 1)) = 3"
    using arg_cong [OF sample_run(7), of length] by simp
  then have len: "length (trying (sample_steps ! Suc 0)) = 3" by simp
  have sel: "selected_node (sample_steps ! 1) = Some 2"
    using column_entry [OF sample_run(3), of 1] by (simp add: sample_run(2))
  have "att_j (trying (sample_steps ! 1) ! 1) = 3" "att_j (trying (sample_steps ! 1) ! 2) = 4"
    "selected (trying (sample_steps ! 1) ! 1) = selected (trying (sample_steps ! 1) ! 2)"
    "deleted (trying (sample_steps ! 1) ! 1) = deleted (trying (sample_steps ! 1) ! 2)"
    using column_entry [OF sample_run(7), of 1] column_entry [OF sample_run(7), of 2]
      column_entry [OF sample_run(9), of 1] column_entry [OF sample_run(9), of 2]
      column_entry [OF sample_run(10), of 1] column_entry [OF sample_run(10), of 2]
    by (simp_all add: len)
  with sample_run(1) sel sample_improved show ?thesis by blast
qed

section \<open>Nodes that no attempt improved\<close>

lemma unimproved_step:
  assumes lg: "attempts_logged G start r j" and ni: "\<not> improved_at G start r j n"
  shows "dist_s (r ! j) n = dist_before G start r j n"
proof (cases "selected_node (r ! j)")
  case None
  with lg show ?thesis by (simp add: attempts_logged_def)
next
  case (Some u)
  with lg have all: "list_all2 (attempt_ok u (closed_s (r ! j) - {u}) (dist_before G start r j)
        (dist_s (r ! j))) (adj G u) (trying (r ! j))"
    and out: "\<forall>n. n \<notin> fst ` set (adj G u) \<longrightarrow> dist_s (r ! j) n = dist_before G start r j n"
    by (simp_all add: attempts_logged_def)
  show ?thesis
  proof (cases "n \<in> fst ` set (adj G u)")
    case False
    with out show ?thesis by simp
  next
    case True
    then obtain e where e: "e \<in> set (adj G u)" and n: "fst e = n" by auto
    from e obtain i where i: "i < length (adj G u)" and ei: "adj G u ! i = e"
      by (auto simp: in_set_conv_nth)
    let ?a = "trying (r ! j) ! i"
    from all i have il: "i < length (trying (r ! j))" by (simp add: list_all2_lengthD)
    then have mem: "?a \<in> set (trying (r ! j))" by (rule nth_mem)
    from all i ei have ok: "attempt_ok u (closed_s (r ! j) - {u}) (dist_before G start r j)
        (dist_s (r ! j)) e ?a" by (auto dest: list_all2_nthD)
    then have aj: "att_j ?a = n"
      and u: "if fst e \<in> closed_s (r ! j) - {u}
        then deleted ?a = ''already_closed'' \<and>
          dist_s (r ! j) (fst e) = dist_before G start r j (fst e)
        else deleted ?a = ''NA'' \<and>
          (\<exists>dv. dist_before G start r j (fst e) = Some dv \<and>
                dist_s (r ! j) (fst e) = Some (if temp_cost ?a < dv then temp_cost ?a else dv))"
      using n unfolding attempt_ok_def by blast+
    show ?thesis
    proof (cases "fst e \<in> closed_s (r ! j) - {u}")
      case True
      with u n show ?thesis by simp
    next
      case False
      with u n obtain dv where d: "deleted ?a = ''NA''"
        and bf: "dist_before G start r j n = Some dv"
        and af: "dist_s (r ! j) n = Some (if temp_cost ?a < dv then temp_cost ?a else dv)"
        by auto
      from ni mem aj d bf have "\<not> temp_cost ?a < dv"
        unfolding improved_at_def by blast
      with af bf show ?thesis by simp
    qed
  qed
qed

lemma unimproved_run:
  assumes lg: "\<forall>j < length r. attempts_logged G start r j"
    and ni: "\<forall>j < length r. \<not> improved_at G start r j n"
  shows "k < length r \<Longrightarrow> dist_s (r ! k) n = dist_before G start r 0 n"
proof (induction k)
  case 0
  with lg ni show ?case by (simp add: unimproved_step)
next
  case (Suc k)
  then have "dist_s (r ! k) n = dist_before G start r 0 n" by simp
  moreover from Suc.prems lg ni
  have "dist_s (r ! Suc k) n = dist_before G start r (Suc k) n"
    by (simp add: unimproved_step)
  ultimately show ?case by (simp add: dist_before_def)
qed

text \<open>
  C6. If a goal is given and some step has it in its closed set, then the step that selected
  the goal is the last step and no earlier step has the goal closed; every step selected a
  node and the \<open>k\<close>-th step has closed exactly \<open>k\<close> nodes, so the length of the sequence is
  the number of nodes closed up to and including the goal; that length is less than the
  number of nodes when not all nodes are closed; and in the last step every node other than
  the start that no attempt of the run improved has distance \<^verbatim>\<open>math.inf\<close>.
\<close>

theorem goal_step_last:
  assumes "wf_graph G" and "set_order ord G"
    and "dijkstra_steps ord G start (Some g) = Inr r"
    and "x \<in> set r" and "g \<in> closed_s x"
  shows "r \<noteq> [] \<and> selected_node (last r) = Some g \<and>
     (\<forall>y \<in> set (butlast r). g \<notin> closed_s y) \<and>
     (\<forall>y \<in> set r. selected_node y \<noteq> None) \<and>
     (\<forall>k < length r. card (closed_s (r ! k)) = k + 1) \<and>
     length r = card (closed_s (last r)) \<and>
     (closed_s (last r) \<noteq> set (nodes G) \<longrightarrow> length r < length (nodes G)) \<and>
     (\<forall>n \<in> set (nodes G). n \<noteq> start \<and> (\<forall>j < length r. \<not> improved_at G start r j n) \<longrightarrow>
        dist_s (last r) n = Some Infinity)"
proof -
  from assms(3) have st: "start \<in> set (nodes G)"
    by (auto simp: dijkstra_steps_def split: if_splits)
  from goal_run [OF assms(1,2) st, of g] assms(3) st
  have q: "(\<exists>x \<in> set r. g \<in> closed_s x) \<longrightarrow>
        r \<noteq> [] \<and> selected_node (last r) = Some g \<and>
        (\<forall>y \<in> set (butlast r). g \<notin> closed_s y) \<and>
        (\<forall>y \<in> set r. selected_node y \<noteq> None) \<and>
        (\<forall>k < length r. card (closed_s (r ! k)) = k + 1) \<and>
        length r = card (closed_s (last r)) \<and>
        closed_s (last r) \<subseteq> set (nodes G)"
    by (simp add: dijkstra_steps_eq)
  from assms(4,5) have "\<exists>x \<in> set r. g \<in> closed_s x" by blast
  with q have main: "r \<noteq> [] \<and> selected_node (last r) = Some g \<and>
        (\<forall>y \<in> set (butlast r). g \<notin> closed_s y) \<and>
        (\<forall>y \<in> set r. selected_node y \<noteq> None) \<and>
        (\<forall>k < length r. card (closed_s (r ! k)) = k + 1) \<and>
        length r = card (closed_s (last r))"
    and sub: "closed_s (last r) \<subseteq> set (nodes G)" and len: "length r = card (closed_s (last r))"
    and ne: "r \<noteq> []"
    by blast+
  have small: "length r < length (nodes G)" if "closed_s (last r) \<noteq> set (nodes G)"
  proof -
    from sub that have "closed_s (last r) \<subset> set (nodes G)" by blast
    then have "card (closed_s (last r)) < card (set (nodes G))"
      by (intro psubset_card_mono) simp_all
    also have "card (set (nodes G)) \<le> length (nodes G)" by (rule card_length)
    finally show ?thesis using len by simp
  qed
  have lg: "\<forall>j < length r. attempts_logged G start r j"
    using assms(1-3) by (blast intro: attempts_of_run)
  have inf: "dist_s (last r) n = Some Infinity"
    if n: "n \<in> set (nodes G)" "n \<noteq> start" and ni: "\<forall>j < length r. \<not> improved_at G start r j n"
    for n
  proof -
    from ne have "length r - 1 < length r" by simp
    with lg ni have "dist_s (r ! (length r - 1)) n = dist_before G start r 0 n"
      by (rule unimproved_run)
    with ne n show ?thesis by (simp add: last_conv_nth dist_before_def dict_init_def)
  qed
  from main small inf show ?thesis by blast
qed

theorem goal_step_last_witness:
  "wf_graph line_graph \<and> set_order [1, 2, 3, 4] line_graph \<and>
   dijkstra_steps [1, 2, 3, 4] line_graph 1 (Some 2) = Inr line_goal_steps \<and>
   line_goal_steps ! 1 \<in> set line_goal_steps \<and> 2 \<in> closed_s (line_goal_steps ! 1) \<and>
   selected_node (last line_goal_steps) = Some 2 \<and>
   length line_goal_steps = card (closed_s (last line_goal_steps)) \<and>
   closed_s (last line_goal_steps) \<noteq> set (nodes line_graph) \<and>
   length line_goal_steps < length (nodes line_graph) \<and>
   adj line_graph 3 = [(4, Some 1)] \<and>
   4 \<in> set (nodes line_graph) \<and> (4::nat) \<noteq> 1 \<and> length line_goal_steps = 2 \<and>
   \<not> improved_at line_graph 1 line_goal_steps 0 4 \<and>
   \<not> improved_at line_graph 1 line_goal_steps 1 4 \<and>
   dist_s (last line_goal_steps) 4 = Some Infinity"
proof -
  have len: "length line_goal_steps = 2" by (rule line_goal_run(2))
  then have "line_goal_steps \<noteq> []" by auto
  then have la: "last line_goal_steps = line_goal_steps ! 1"
    by (simp add: last_conv_nth len)
  have mem: "line_goal_steps ! 1 \<in> set line_goal_steps" by (rule nth_mem) (simp add: len)
  have cl: "closed_s (line_goal_steps ! 1) = {1, 2}"
    using column_entry [OF line_goal_run(4), of 1] by (simp add: len)
  then have g: "2 \<in> closed_s (line_goal_steps ! 1)" by simp
  have ne: "closed_s (last line_goal_steps) \<noteq> set (nodes line_graph)"
    using cl la by (auto simp: line_graph_def)
  have n4: "4 \<in> set (nodes line_graph)" by (simp add: line_graph_def)
  have a3: "adj line_graph 3 = [(4, Some 1)]" by (simp add: line_graph_def)
  have t0: "map att_j (trying (line_goal_steps ! 0)) = [2]"
    using column_entry [OF line_goal_run(6), of 0] by (simp add: len)
  have t1: "map att_j (trying (line_goal_steps ! 1)) = [3]"
    using column_entry [OF line_goal_run(6), of 1] by (simp add: len)
  have "att_j ` set (trying (line_goal_steps ! 0)) = {2}"
    using arg_cong [OF t0, of set] by simp
  then have "\<forall>a \<in> set (trying (line_goal_steps ! 0)). att_j a = 2" by blast
  then have i0: "\<not> improved_at line_graph 1 line_goal_steps 0 4"
    unfolding improved_at_def by auto
  have "att_j ` set (trying (line_goal_steps ! 1)) = {3}"
    using arg_cong [OF t1, of set] by simp
  then have "\<forall>a \<in> set (trying (line_goal_steps ! 1)). att_j a = 3" by blast
  then have i1: "\<not> improved_at line_graph 1 line_goal_steps 1 4"
    unfolding improved_at_def by auto
  from i0 i1 len have never: "\<forall>j < length line_goal_steps. \<not> improved_at line_graph 1 line_goal_steps j 4"
    by (simp add: less_Suc_eq numeral_2_eq_2)
  note t = goal_step_last [OF wf_line_graph order_line_graph line_goal_run(1) mem g]
  from t have a: "selected_node (last line_goal_steps) = Some 2"
    and b: "length line_goal_steps = card (closed_s (last line_goal_steps))" by blast+
  from t ne have c: "length line_goal_steps < length (nodes line_graph)" by blast
  from t n4 never have d: "dist_s (last line_goal_steps) 4 = Some Infinity" by auto
  from wf_line_graph order_line_graph line_goal_run(1) mem g a b ne c a3 n4 len i0 i1 d
  show ?thesis by simp
qed

section \<open>Relaxation with non-negative weights\<close>

text \<open>
  With non-negative weights a relaxation loop leaves the distance of the current node
  alone, changes an entry only to make the current node the predecessor of an open
  neighbour other than itself, with the distance of the current node plus the weight of
  the edge, and leaves every open neighbour with at most that sum.
\<close>

lemma relax_all_nonneg:
  assumes r: "relax_all c cl (dst, prv, logs) es = Inr (dst', prv', logs')"
    and c: "dst c = Some dc" and dbl: "is_double dc" and sub: "fst ` set es \<subseteq> dom dst"
    and nn: "\<forall>e \<in> set es. 0 \<le> get_weight (snd e)"
  shows "dst' c = Some dc"
    and "\<forall>n. (dst' n = dst n \<and> prv' n = prv n) \<or>
          (n \<notin> cl \<and> n \<noteq> c \<and> prv' n = Some (Some c) \<and>
           (\<exists>e \<in> set es. fst e = n \<and> dst' n = Some (cost_add dc (get_weight (snd e)))))"
    and "\<forall>e \<in> set es. fst e \<notin> cl \<longrightarrow>
          (\<exists>y. dst' (fst e) = Some y \<and> y \<le> cost_add dc (get_weight (snd e)))"
proof -
  let ?A = "\<lambda>(ps :: ('a \<times> real option) list) (d :: 'a \<rightharpoonup> cost) (p :: 'a \<rightharpoonup> 'a option) n.
      (d n = dst n \<and> p n = prv n) \<or>
      (n \<notin> cl \<and> n \<noteq> c \<and> p n = Some (Some c) \<and>
       (\<exists>e \<in> set ps. fst e = n \<and> d n = Some (cost_add dc (get_weight (snd e)))))"
  let ?B = "\<lambda>(d :: 'a \<rightharpoonup> cost) (e :: 'a \<times> real option).
      fst e \<notin> cl \<longrightarrow> (\<exists>y. d (fst e) = Some y \<and> y \<le> cost_add dc (get_weight (snd e)))"
  let ?P = "\<lambda>(ps :: ('a \<times> real option) list) (d :: 'a \<rightharpoonup> cost)
              (p :: 'a \<rightharpoonup> 'a option) (l :: 'a attempt list).
      d c = Some dc \<and> (\<forall>n. ?A ps d p n) \<and> (\<forall>e \<in> set ps. ?B d e)"
  from c have cd: "c \<in> dom dst" by auto
  have "\<exists>dst' prv' logs'. relax_all c cl (dst, prv, logs) es = Inr (dst', prv', logs') \<and>
          ?P es dst' prv' logs' \<and> dom dst' = dom dst"
  proof (rule relax_all_rule [where P = ?P, OF _ cd sub])
    show "?P [] dst prv logs" using c by simp
  next
    fix ps and e :: "'a \<times> real option" and rest d and p :: "'a \<rightharpoonup> 'a option"
      and l :: "'a attempt list" and dc' dv
    assume es: "es = ps @ e # rest" and P: "?P ps d p l"
      and dc': "d c = Some dc'" and dv: "d (fst e) = Some dv"
    from P dc' have [simp]: "dc' = dc" by simp
    from P have dcc: "d c = Some dc" and A: "\<And>n. ?A ps d p n" and B: "\<And>x. x \<in> set ps \<Longrightarrow> ?B d x"
      by blast+
    let ?cand = "cost_add dc (get_weight (snd e))"
    from es nn have "0 \<le> get_weight (snd e)" by simp
    with dbl have ge: "dc \<le> ?cand" by (rule cost_add_nonneg)
    show "?P (ps @ [e])
       (if improves cl dc' dv e then d(fst e \<mapsto> cost_add dc' (get_weight (snd e))) else d)
       (if improves cl dc' dv e then p(fst e \<mapsto> Some c) else p)
       (l @ [attempt_of c cl dc' e])"
    proof (cases "improves cl dc dv e")
      case False
      have "?A (ps @ [e]) d p n" for n using A [of n] by auto
      moreover have "?B d x" if "x \<in> set (ps @ [e])" for x
      proof (cases "x = e")
        case True
        show ?thesis
        proof
          assume "fst x \<notin> cl"
          with False True have "dv \<le> ?cand" by (simp add: improves_def)
          with dv True show "\<exists>y. d (fst x) = Some y \<and> y \<le> cost_add dc (get_weight (snd x))"
            by simp
        qed
      next
        case False
        with that have "x \<in> set ps" by simp
        then show ?thesis by (rule B)
      qed
      ultimately show ?thesis using False dcc by simp
    next
      case True
      then have ncl: "fst e \<notin> cl" and lt: "?cand < dv" by (simp_all add: improves_def)
      have nc: "fst e \<noteq> c"
      proof
        assume "fst e = c"
        with dv dcc have "dv = dc" by simp
        with lt ge show False by simp
      qed
      let ?d = "d(fst e \<mapsto> ?cand)" and ?p = "p(fst e \<mapsto> Some c)"
      have 1: "?d c = Some dc" using nc dcc by simp
      have 2: "?A (ps @ [e]) ?d ?p n" for n
      proof (cases "n = fst e")
        case True
        with ncl nc show ?thesis by simp
      next
        case False
        with A [of n] show ?thesis by auto
      qed
      have 3: "?B ?d x" if "x \<in> set (ps @ [e])" for x
      proof (cases "fst x = fst e")
        case same: True
        show ?thesis
        proof (cases "x = e")
          case True
          then show ?thesis by simp
        next
          case False
          with that have "x \<in> set ps" by simp
          then have "?B d x" by (rule B)
          with same ncl dv have "dv \<le> cost_add dc (get_weight (snd x))" by simp
          with lt have "?cand \<le> cost_add dc (get_weight (snd x))" by simp
          with same show ?thesis by simp
        qed
      next
        case False
        with that have "x \<in> set ps" by auto
        then have "?B d x" by (rule B)
        with False show ?thesis by simp
      qed
      from 1 2 3 True show ?thesis by simp
    qed
  qed
  with r show "dst' c = Some dc"
    and "\<forall>n. (dst' n = dst n \<and> prv' n = prv n) \<or>
          (n \<notin> cl \<and> n \<noteq> c \<and> prv' n = Some (Some c) \<and>
           (\<exists>e \<in> set es. fst e = n \<and> dst' n = Some (cost_add dc (get_weight (snd e)))))"
    and "\<forall>e \<in> set es. fst e \<notin> cl \<longrightarrow>
          (\<exists>y. dst' (fst e) = Some y \<and> y \<le> cost_add dc (get_weight (snd e)))"
    by simp_all
qed

section \<open>Properties of every recorded step\<close>

text \<open>A property of the closed set, the distances and the predecessors that holds at the
  start and is kept by every selection holds of every step of a run.\<close>

lemma steps_invariant:
  assumes wf: "wf_graph G" and ord: "set_order ord G" and st: "start \<in> set (nodes G)"
    and init: "X {} ((dict_init (nodes G) Infinity)(start \<mapsto> Finite 0))
                 (dict_init (nodes G) None)"
    and step: "\<And>s c dc dst prv logs. basic_inv G s \<Longrightarrow>
       X (closed_w s) (dist_w s) (prev_w s) \<Longrightarrow>
       c \<in> set (open_set s) \<Longrightarrow> dist_w s c = Some (Finite dc) \<Longrightarrow>
       \<forall>x \<in> set (open_set s). \<forall>dx. dist_w s x = Some dx \<longrightarrow> Finite dc \<le> dx \<Longrightarrow>
       relax_all c (closed_w s) (dist_w s, prev_w s, []) (adj G c) = Inr (dst, prv, logs) \<Longrightarrow>
       basic_inv G (advance s c dst prv logs) \<Longrightarrow>
       X (insert c (closed_w s)) dst prv"
  shows "\<exists>r. dijkstra_loop G goal (init_state ord G start) = Inr r \<and>
           (\<forall>y \<in> set r. X (closed_s y) (dist_s y) (prev_s y))"
proof (rule dijkstra_loop_inv
    [where J = "\<lambda>s. X (closed_w s) (dist_w s) (prev_w s) \<and>
                     (\<forall>y \<in> set (steps s). X (closed_s y) (dist_s y) (prev_s y))",
     OF wf basic_inv_init [OF ord st]])
  show "X (closed_w (init_state ord G start)) (dist_w (init_state ord G start))
          (prev_w (init_state ord G start)) \<and>
        (\<forall>y \<in> set (steps (init_state ord G start)). X (closed_s y) (dist_s y) (prev_s y))"
    using init by simp
next
  fix s :: "'a loop_state"
  assume "X (closed_w s) (dist_w s) (prev_w s) \<and>
     (\<forall>y \<in> set (steps s). X (closed_s y) (dist_s y) (prev_s y))"
  then show "\<forall>y \<in> set (steps s). X (closed_s y) (dist_s y) (prev_s y)" ..
next
  fix s :: "'a loop_state"
  assume "X (closed_w s) (dist_w s) (prev_w s) \<and>
     (\<forall>y \<in> set (steps s). X (closed_s y) (dist_s y) (prev_s y))"
  then show "\<forall>y \<in> set (steps s @ [terminal_step s]). X (closed_s y) (dist_s y) (prev_s y)"
    by simp
next
  fix s :: "'a loop_state" and c dc dst prv logs
  assume b: "basic_inv G s"
    and J: "X (closed_w s) (dist_w s) (prev_w s) \<and>
     (\<forall>y \<in> set (steps s). X (closed_s y) (dist_s y) (prev_s y))"
    and c: "c \<in> set (open_set s)" and dc: "dist_w s c = Some (Finite dc)"
    and least: "\<forall>x \<in> set (open_set s). \<forall>dx. dist_w s x = Some dx \<longrightarrow> Finite dc \<le> dx"
    and r: "relax_all c (closed_w s) (dist_w s, prev_w s, []) (adj G c) = Inr (dst, prv, logs)"
    and b': "basic_inv G (advance s c dst prv logs)"
  let ?s' = "advance s c dst prv logs"
  from J have X: "X (closed_w s) (dist_w s) (prev_w s)" ..
  have "X (insert c (closed_w s)) dst prv" using b X c dc least r b' by (rule step)
  with J have "X (closed_w ?s') (dist_w ?s') (prev_w ?s') \<and>
     (\<forall>y \<in> set (steps ?s'). X (closed_s y) (dist_s y) (prev_s y))" by simp
  then show "(goal \<noteq> Some c \<longrightarrow> X (closed_w ?s') (dist_w ?s') (prev_w ?s') \<and>
       (\<forall>y \<in> set (steps ?s'). X (closed_s y) (dist_s y) (prev_s y))) \<and>
     (goal = Some c \<longrightarrow> (\<forall>y \<in> set (steps ?s'). X (closed_s y) (dist_s y) (prev_s y)))"
    by blast
qed

lemma nonneg_adj:
  "nonneg_weights G \<Longrightarrow> c \<in> set (nodes G) \<Longrightarrow> \<forall>e \<in> set (adj G c). 0 \<le> get_weight (snd e)"
  by (simp add: nonneg_weights_def)

section \<open>Distances and predecessors agree\<close>

lemma pred_step:
  assumes wf: "wf_graph G" and nn: "nonneg_weights G" and b: "basic_inv G s"
    and X: "all_doubles (dist_w s) \<and> pred_consistent G (closed_w s) (dist_w s) (prev_w s) \<and>
            ranked (closed_w s) (prev_w s)"
    and c: "c \<in> set (open_set s)" and dc: "dist_w s c = Some (Finite dc)"
    and r: "relax_all c (closed_w s) (dist_w s, prev_w s, []) (adj G c) = Inr (dst, prv, logs)"
  shows "all_doubles dst \<and> pred_consistent G (insert c (closed_w s)) dst prv \<and>
         ranked (insert c (closed_w s)) prv"
proof -
  note nb = neighbours_in_dom [OF wf b c]
  from X have D: "all_doubles (dist_w s)"
    and P: "pred_consistent G (closed_w s) (dist_w s) (prev_w s)"
    and R: "ranked (closed_w s) (prev_w s)" by blast+
  from D dc have dbl: "is_double (Finite dc)" unfolding all_doubles_def by blast
  note f = relax_all_nonneg [OF r dc dbl nb(2) nonneg_adj [OF nn nb(3)]]
  have ch: "(dst n = dist_w s n \<and> prv n = prev_w s n) \<or>
      (n \<notin> closed_w s \<and> n \<noteq> c \<and> prv n = Some (Some c) \<and>
       (\<exists>e \<in> set (adj G c). fst e = n \<and>
          dst n = Some (cost_add (Finite dc) (get_weight (snd e)))))" for n
    using f(2) by blast
  have same: "dst q = dist_w s q" if "q \<in> closed_w s" for q
    using ch [of q] that by blast
  have 1: "all_doubles dst"
    unfolding all_doubles_def
  proof (intro allI impI)
    fix n x assume nx: "dst n = Some x"
    from ch [of n] show "is_double x"
    proof
      assume "dst n = dist_w s n \<and> prv n = prev_w s n"
      with nx D show ?thesis unfolding all_doubles_def by auto
    next
      assume "n \<notin> closed_w s \<and> n \<noteq> c \<and> prv n = Some (Some c) \<and>
       (\<exists>e \<in> set (adj G c). fst e = n \<and>
          dst n = Some (cost_add (Finite dc) (get_weight (snd e))))"
      then obtain e :: "'a \<times> real option"
        where "dst n = Some (cost_add (Finite dc) (get_weight (snd e)))" by blast
      with nx have "x = cost_add (Finite dc) (get_weight (snd e))" by simp
      then show ?thesis by (simp only: is_double_cost_add)
    qed
  qed
  have 2: "pred_consistent G (insert c (closed_w s)) dst prv"
    unfolding pred_consistent_def
  proof (intro allI impI)
    fix n p assume np: "prv n = Some (Some p)"
    from ch [of n]
    show "p \<in> insert c (closed_w s) \<and> n \<noteq> p \<and>
        (\<exists>a dp. (n, a) \<in> set (adj G p) \<and> dst p = Some dp \<and>
                dst n = Some (cost_add dp (get_weight a)))"
    proof
      assume u: "dst n = dist_w s n \<and> prv n = prev_w s n"
      with np have "prev_w s n = Some (Some p)" by simp
      with P obtain a dp where p: "p \<in> closed_w s" "n \<noteq> p" "(n, a) \<in> set (adj G p)"
        "dist_w s p = Some dp" "dist_w s n = Some (cost_add dp (get_weight a))"
        unfolding pred_consistent_def by blast
      with u same [of p] show ?thesis by auto
    next
      assume "n \<notin> closed_w s \<and> n \<noteq> c \<and> prv n = Some (Some c) \<and>
       (\<exists>e \<in> set (adj G c). fst e = n \<and>
          dst n = Some (cost_add (Finite dc) (get_weight (snd e))))"
      then obtain e where "n \<noteq> c" "prv n = Some (Some c)" "e \<in> set (adj G c)" "fst e = n"
        "dst n = Some (cost_add (Finite dc) (get_weight (snd e)))" by blast
      moreover from this have "(n, snd e) \<in> set (adj G c)" by auto
      ultimately show ?thesis using np f(1) by auto
    qed
  qed
  from R obtain f :: "'a \<Rightarrow> nat" and K where
    fK: "\<forall>q \<in> closed_w s. f q < K" "\<forall>v. v \<notin> closed_w s \<longrightarrow> f v = K"
      "\<forall>n p. prev_w s n = Some (Some p) \<longrightarrow> f p < f n"
    unfolding ranked_def by blast
  let ?f = "\<lambda>x. if x \<in> insert c (closed_w s) then f x else K + 1"
  from nb(4) fK(2) have fc: "f c = K" by simp
  have 3: "ranked (insert c (closed_w s)) prv"
    unfolding ranked_def
  proof (intro exI conjI allI impI ballI)
    fix q assume "q \<in> insert c (closed_w s)"
    with fK(1) fc show "?f q < K + 1" by auto
  next
    fix v assume "v \<notin> insert c (closed_w s)"
    then show "?f v = K + 1" by simp
  next
    fix n p assume np: "prv n = Some (Some p)"
    from ch [of n] show "?f p < ?f n"
    proof
      assume u: "dst n = dist_w s n \<and> prv n = prev_w s n"
      with np have pn: "prev_w s n = Some (Some p)" by simp
      with P have pc: "p \<in> closed_w s" unfolding pred_consistent_def by blast
      from pn fK(3) have "f p < f n" by blast
      moreover from pc fK(1) have "f p < K" by blast
      ultimately show ?thesis using pc by simp
    next
      assume "n \<notin> closed_w s \<and> n \<noteq> c \<and> prv n = Some (Some c) \<and>
       (\<exists>e \<in> set (adj G c). fst e = n \<and>
          dst n = Some (cost_add (Finite dc) (get_weight (snd e))))"
      with np fc show ?thesis by auto
    qed
  qed
  from 1 2 3 show ?thesis by blast
qed

lemma pred_run:
  assumes wf: "wf_graph G" and ord: "set_order ord G" and nn: "nonneg_weights G"
    and run: "dijkstra_steps ord G start goal = Inr r" and y: "y \<in> set r"
  shows "all_doubles (dist_s y)" and "pred_consistent G (closed_s y) (dist_s y) (prev_s y)"
    and "ranked (closed_s y) (prev_s y)"
proof -
  from run have st: "start \<in> set (nodes G)"
    by (auto simp: dijkstra_steps_def split: if_splits)
  have "\<exists>r. dijkstra_loop G goal (init_state ord G start) = Inr r \<and>
      (\<forall>y \<in> set r. all_doubles (dist_s y) \<and>
         pred_consistent G (closed_s y) (dist_s y) (prev_s y) \<and> ranked (closed_s y) (prev_s y))"
  proof (rule steps_invariant
      [where X = "\<lambda>cl dst prv. all_doubles dst \<and> pred_consistent G cl dst prv \<and> ranked cl prv",
       OF wf ord st])
    have "ranked {} (dict_init (nodes G) None)"
      unfolding ranked_def by (intro exI [of _ "\<lambda>x. 0"] exI [of _ 0]) (simp add: dict_init_def)
    then show "all_doubles ((dict_init (nodes G) Infinity)(start \<mapsto> Finite 0)) \<and>
        pred_consistent G {} ((dict_init (nodes G) Infinity)(start \<mapsto> Finite 0))
          (dict_init (nodes G) None) \<and>
        ranked {} (dict_init (nodes G) None)"
      by (auto simp: all_doubles_def pred_consistent_def dict_init_def split: if_splits)
  next
    fix s :: "'a loop_state" and c dc dst prv logs
    assume "basic_inv G s"
      "all_doubles (dist_w s) \<and> pred_consistent G (closed_w s) (dist_w s) (prev_w s) \<and>
         ranked (closed_w s) (prev_w s)"
      "c \<in> set (open_set s)" "dist_w s c = Some (Finite dc)"
      "relax_all c (closed_w s) (dist_w s, prev_w s, []) (adj G c) = Inr (dst, prv, logs)"
    with wf nn show "all_doubles dst \<and> pred_consistent G (insert c (closed_w s)) dst prv \<and>
         ranked (insert c (closed_w s)) prv" by (rule pred_step)
  qed
  with run st y show "all_doubles (dist_s y)"
    and "pred_consistent G (closed_s y) (dist_s y) (prev_s y)"
    and "ranked (closed_s y) (prev_s y)" by (auto simp: dijkstra_steps_eq)
qed



section \<open>The backward walk ends\<close>

lemma walk_loop_step:
  "n \<noteq> t \<Longrightarrow> prev n = Some po \<Longrightarrow>
   walk_loop prev t (Some n) acc = walk_loop prev t po (acc @ [n])"
  by (subst walk_loop.simps) simp

text \<open>On ranked predecessors the loop of \<open>reconstruct_path\<close> returns, with a walk that
  repeats no node.\<close>

lemma walk_terminates:
  fixes f :: "'a \<Rightarrow> nat"
  assumes rk: "\<forall>n p. prev n = Some (Some p) \<longrightarrow> f p < f n \<and> p \<in> dom prev"
  shows "n \<in> dom prev \<Longrightarrow>
     \<exists>ns. walk_loop prev t (Some n) acc = Some (Inr (acc @ ns)) \<and> ns \<noteq> [] \<and> hd ns = n \<and>
          distinct ns \<and> set ns \<subseteq> dom prev \<and> (\<forall>x \<in> set ns. f x \<le> f n) \<and>
          backward_walk prev t ns"
proof (induction "f n" arbitrary: n acc rule: less_induct)
  case less
  show ?case
  proof (cases "n = t")
    case True
    with less.prems have "walk_loop prev t (Some n) acc = Some (Inr (acc @ [n])) \<and> [n] \<noteq> [] \<and>
        hd [n] = n \<and> distinct [n] \<and> set [n] \<subseteq> dom prev \<and> (\<forall>x \<in> set [n]. f x \<le> f n) \<and>
        backward_walk prev t [n]" by simp
    then show ?thesis by blast
  next
    case False
    from less.prems obtain po where po: "prev n = Some po" by auto
    have w: "walk_loop prev t (Some n) acc = walk_loop prev t po (acc @ [n])"
      using False po by (rule walk_loop_step)
    show ?thesis
    proof (cases po)
      case None
      with w less.prems have "walk_loop prev t (Some n) acc = Some (Inr (acc @ [n])) \<and>
          [n] \<noteq> [] \<and> hd [n] = n \<and> distinct [n] \<and> set [n] \<subseteq> dom prev \<and>
          (\<forall>x \<in> set [n]. f x \<le> f n) \<and> backward_walk prev t [n]" by simp
      then show ?thesis by blast
    next
      case (Some p)
      with po rk have fp: "f p < f n" and pd: "p \<in> dom prev" by blast+
      from less.hyps [OF fp pd, of "acc @ [n]"] obtain ns where
        ns: "walk_loop prev t (Some p) (acc @ [n]) = Some (Inr ((acc @ [n]) @ ns))"
          "ns \<noteq> []" "hd ns = p" "distinct ns" "set ns \<subseteq> dom prev"
          "\<forall>x \<in> set ns. f x \<le> f p" "backward_walk prev t ns" by blast
      from ns(6) fp have nn: "n \<notin> set ns" by auto
      from ns(2,3) obtain ms where ms: "ns = p # ms" by (cases ns) auto
      have bw: "backward_walk prev t (n # ns)"
        using False po Some ns(7) by (simp add: ms)
      have "walk_loop prev t (Some n) acc = Some (Inr (acc @ n # ns))"
        using w Some ns(1) by simp
      moreover have "\<forall>x \<in> set (n # ns). f x \<le> f n" using ns(6) fp by auto
      ultimately have "walk_loop prev t (Some n) acc = Some (Inr (acc @ n # ns)) \<and>
          n # ns \<noteq> [] \<and> hd (n # ns) = n \<and> distinct (n # ns) \<and> set (n # ns) \<subseteq> dom prev \<and>
          (\<forall>x \<in> set (n # ns). f x \<le> f n) \<and> backward_walk prev t (n # ns)"
        using nn ns(4,5) less.prems bw by simp
      then show ?thesis by blast
    qed
  qed
qed

lemma dom_run:
  assumes wf: "wf_graph G" and ord: "set_order ord G"
    and run: "dijkstra_steps ord G start goal = Inr r" and y: "y \<in> set r"
  shows "dom (dist_s y) = set (nodes G)" and "dom (prev_s y) = set (nodes G)"
    and "closed_s y \<subseteq> set (nodes G)"
proof -
  from run have st: "start \<in> set (nodes G)"
    by (auto simp: dijkstra_steps_def split: if_splits)
  have "\<exists>r. dijkstra_loop G goal (init_state ord G start) = Inr r \<and>
      (\<forall>y \<in> set r. dom (dist_s y) = set (nodes G) \<and> dom (prev_s y) = set (nodes G) \<and>
         closed_s y \<subseteq> set (nodes G))"
  proof (rule steps_invariant
      [where X = "\<lambda>cl dst prv. dom dst = set (nodes G) \<and> dom prv = set (nodes G) \<and>
                    cl \<subseteq> set (nodes G)", OF wf ord st])
    show "dom ((dict_init (nodes G) Infinity)(start \<mapsto> Finite 0)) = set (nodes G) \<and>
        dom (dict_init (nodes G) None :: 'a \<rightharpoonup> 'a option) = set (nodes G) \<and>
        {} \<subseteq> set (nodes G)"
      using st by (simp add: insert_absorb)
  next
    fix s :: "'a loop_state" and c dst prv logs
    assume "basic_inv G (advance s c dst prv logs)"
    then show "dom dst = set (nodes G) \<and> dom prv = set (nodes G) \<and>
        insert c (closed_w s) \<subseteq> set (nodes G)"
      unfolding basic_inv_def by (simp only: advance_fields) blast
  qed
  with run st y show "dom (dist_s y) = set (nodes G)" and "dom (prev_s y) = set (nodes G)"
    and "closed_s y \<subseteq> set (nodes G)" by (auto simp: dijkstra_steps_eq)
qed



end
